theory Spec2Isabelle
  imports Main "HOL-Library.Word" "HOL-Library.Multiset"
begin

unbundle bit_operations_syntax

section \<open>The data model of ck\_bag.h\<close>

text \<open>
  Pointers are 64-bit words (\<open>uintptr_t\<close>; the header shifts by 48, so the target is a
  64-bit one), \<open>NULL\<close> is 0. \<open>unsigned int\<close> is 32 bits wide there and \<open>uint16_t\<close> 16.
  The memory holding the blocks is an explicit store: a partial map from a block's
  address to its contents. Dereferencing an address the store does not hold, and reading
  the flexible array past its end, are faults of the model (undefined behaviour in C).
\<close>

type_synonym uintptr = "64 word"

datatype ck_bag_allocation_strategy = CK_BAG_ALLOCATE_GEOMETRIC | CK_BAG_ALLOCATE_LINEAR

record ck_bag_block_info =
  info_max :: "64 word"
  info_bytes :: "64 word"

text \<open>\<open>struct ck_bag_block\<close>: the field \<open>next\<close> is called \<open>blk_next\<close> here; the
  flexible array member is a list whose length is the capacity the block was allocated
  with.\<close>

record ck_bag_block =
  blk_next :: uintptr
  avail_next :: uintptr
  avail_prev :: uintptr
  array :: "uintptr list"

record ck_bag =
  head :: uintptr
  avail_head :: uintptr
  avail_tail :: uintptr
  n_entries :: "32 word"
  n_blocks :: "32 word"
  alloc_strat :: ck_bag_allocation_strategy
  info :: ck_bag_block_info

record ck_bag_iterator =
  block :: uintptr
  index :: "16 word"

type_synonym heap = "uintptr \<Rightarrow> ck_bag_block option"

datatype fault = Bad_Pointer | Out_Of_Bounds

section \<open>The inline functions of ck\_bag.h\<close>

definition CK_BAG_BLOCK_ENTRIES_MASK :: uintptr where
  "CK_BAG_BLOCK_ENTRIES_MASK = push_bit 48 (0xFFFF :: uintptr)"

definition ck_bag_block_next :: "uintptr \<Rightarrow> uintptr" where
  "ck_bag_block_next blockp = blockp AND NOT CK_BAG_BLOCK_ENTRIES_MASK"

definition ck_bag_count :: "ck_bag \<Rightarrow> 32 word" where
  "ck_bag_count bag = n_entries bag"

text \<open>\<open>ck_bag_block_count\<close> loads \<open>block->next\<close>, shifts it right by 48 and returns the
  result as \<open>uint16_t\<close>.\<close>

definition ck_bag_block_count :: "heap \<Rightarrow> uintptr \<Rightarrow> fault + 16 word" where
  "ck_bag_block_count h blockp =
     (case h blockp of
        None \<Rightarrow> Inl Bad_Pointer
      | Some blk \<Rightarrow> Inr (ucast (drop_bit 48 (blk_next blk))))"

definition ck_bag_iterator_init :: "ck_bag \<Rightarrow> ck_bag_iterator" where
  "ck_bag_iterator_init bag = \<lparr>block = head bag, index = 0\<rparr>"

text \<open>
  The result of one call of \<open>ck_bag_next\<close>: the returned flag, the iterator as the call
  leaves it, the caller's \<open>*entry\<close> as the call leaves it, and the slot the call read
  (block and index), if it read one.
\<close>

record next_result =
  ret :: bool
  iter :: ck_bag_iterator
  entry :: uintptr
  slot_read :: "(uintptr \<times> 16 word) option"

text \<open>Line 159: \<open>*entry = array[index++]\<close> on the iterator's block, and \<open>return true\<close>
  (after the second \<open>NULL\<close> test of line 156).\<close>

definition ck_bag_next_load :: "heap \<Rightarrow> ck_bag_iterator \<Rightarrow> uintptr \<Rightarrow> fault + next_result" where
  "ck_bag_next_load h it e =
     (if block it = 0 then Inr \<lparr>ret = False, iter = it, entry = e, slot_read = None\<rparr>
      else
        (case h (block it) of
           None \<Rightarrow> Inl Bad_Pointer
         | Some blk \<Rightarrow>
             if unat (index it) < length (array blk)
             then Inr \<lparr>ret = True, iter = it\<lparr>index := index it + 1\<rparr>,
                       entry = array blk ! unat (index it),
                       slot_read = Some (block it, index it)\<rparr>
             else Inl Out_Of_Bounds))"

definition ck_bag_next :: "heap \<Rightarrow> ck_bag_iterator \<Rightarrow> uintptr \<Rightarrow> fault + next_result" where
  "ck_bag_next h it e =
     (if block it = 0 then Inr \<lparr>ret = False, iter = it, entry = e, slot_read = None\<rparr>
      else
        (case ck_bag_block_count h (block it) of
           Inl f \<Rightarrow> Inl f
         | Inr n \<Rightarrow>
             if index it \<ge> n then
               (case h (block it) of
                  None \<Rightarrow> Inl Bad_Pointer
                | Some blk \<Rightarrow>
                    let it1 = it\<lparr>block := ck_bag_block_next (blk_next blk)\<rparr> in
                    if block it1 = 0
                    then Inr \<lparr>ret = False, iter = it1, entry = e, slot_read = None\<rparr>
                    else
                      (case ck_bag_block_count h (block it1) of
                         Inl f \<Rightarrow> Inl f
                       | Inr c \<Rightarrow>
                           if c = 0
                           then Inr \<lparr>ret = False, iter = it1, entry = e, slot_read = None\<rparr>
                           else ck_bag_next_load h (it1\<lparr>index := 0\<rparr>) e))
             else ck_bag_next_load h it e))"

section \<open>Chains of blocks and iterator runs\<close>

text \<open>\<open>chain h p bs\<close>: following the masked \<open>next\<close> fields from the pointer \<open>p\<close> visits
  exactly the blocks \<open>bs\<close> of the store, in this order, and then reaches \<open>NULL\<close>.\<close>

fun chain :: "heap \<Rightarrow> uintptr \<Rightarrow> uintptr list \<Rightarrow> bool" where
  "chain h p [] = (p = 0)"
| "chain h p (b # bs) =
     (p = b \<and> b \<noteq> 0 \<and>
      (case h b of None \<Rightarrow> False
       | Some blk \<Rightarrow> chain h (ck_bag_block_next (blk_next blk)) bs))"

text \<open>The count a block's word holds does not exceed the slots the block was allocated
  with.\<close>

definition count_in_capacity :: "heap \<Rightarrow> uintptr \<Rightarrow> bool" where
  "count_in_capacity h b =
     (case h b of None \<Rightarrow> False
      | Some blk \<Rightarrow>
          (case ck_bag_block_count h b of Inl f \<Rightarrow> False
           | Inr c \<Rightarrow> unat c \<le> length (array blk)))"

text \<open>The iterator states a reader reaches on an unchanging store: the one
  \<open>ck_bag_iterator_init\<close> makes, and those \<open>ck_bag_next\<close> leaves behind.\<close>

inductive it_reach :: "heap \<Rightarrow> ck_bag \<Rightarrow> ck_bag_iterator \<Rightarrow> bool" for h :: heap and bag :: ck_bag where
  reach_init: "it_reach h bag (ck_bag_iterator_init bag)"
| reach_next: "it_reach h bag it \<Longrightarrow> ck_bag_next h it e = Inr r \<Longrightarrow> it_reach h bag (iter r)"

text \<open>The result of the call of \<open>ck_bag_next\<close> that follows \<open>n\<close> earlier calls on the same
  iterator and the same \<open>entry\<close> location, the store unchanged in between.\<close>

fun ck_bag_next_after :: "heap \<Rightarrow> nat \<Rightarrow> ck_bag_iterator \<Rightarrow> uintptr \<Rightarrow> fault + next_result" where
  "ck_bag_next_after h 0 it e = ck_bag_next h it e"
| "ck_bag_next_after h (Suc n) it e =
     (case ck_bag_next h it e of
        Inl f \<Rightarrow> Inl f
      | Inr r \<Rightarrow> ck_bag_next_after h n (iter r) (entry r))"

text \<open>A store of three chained blocks, the middle one without live entries: the block at
  \<open>0x40\<close> holds one entry and links to \<open>0x80\<close>, which holds none and links to \<open>0xC0\<close>, which
  holds one entry and ends the chain.\<close>

definition gap_heap :: heap where
  "gap_heap =
     [0x40 \<mapsto> \<lparr>blk_next = 0x80 OR push_bit 48 1, avail_next = 0, avail_prev = 0, array = [7]\<rparr>,
      0x80 \<mapsto> \<lparr>blk_next = 0xC0, avail_next = 0, avail_prev = 0, array = [0]\<rparr>,
      0xC0 \<mapsto> \<lparr>blk_next = push_bit 48 1, avail_next = 0, avail_prev = 0, array = [9]\<rparr>]"

text \<open>A store of two chained blocks whose last block has no live entries.\<close>

definition tail_heap :: heap where
  "tail_heap =
     [0x40 \<mapsto> \<lparr>blk_next = 0x80 OR push_bit 48 1, avail_next = 0, avail_prev = 0, array = [7]\<rparr>,
      0x80 \<mapsto> \<lparr>blk_next = 0, avail_next = 0, avail_prev = 0, array = [0]\<rparr>]"

text \<open>A bag record whose chain head is the block at \<open>0x40\<close>.\<close>

definition gap_bag :: ck_bag where
  "gap_bag = \<lparr>head = 0x40, avail_head = 0, avail_tail = 0, n_entries = 2, n_blocks = 3,
     alloc_strat = CK_BAG_ALLOCATE_LINEAR, info = \<lparr>info_max = 1, info_bytes = 64\<rparr>\<rparr>"

section \<open>The mutator: init, put and remove\<close>

text \<open>
  \<open>ck_bag_init\<close>, \<open>ck_bag_put_spmc\<close> and \<open>ck_bag_remove_spmc\<close> are declared in ck\_bag.h
  and defined in ck\_bag.c, which is not among the sources. The definitions of this
  section follow the specification (sections 3 and 4) on the data layout of the header.
  The state of the mutator is the store of blocks together with the bag record.
\<close>

type_synonym state = "heap \<times> ck_bag"

text \<open>Modelled from the spec: \<open>ck_bag_init\<close> (ck\_bag.c is missing). The bag starts with
  no blocks and no entries; the block geometry, which the specification derives from the
  sizing hint and the allocator's overhead without giving the computation, is a parameter.\<close>

definition ck_bag_init :: "ck_bag_block_info \<Rightarrow> ck_bag_allocation_strategy \<Rightarrow> ck_bag" where
  "ck_bag_init geometry strat =
     \<lparr>head = 0, avail_head = 0, avail_tail = 0, n_entries = 0, n_blocks = 0,
      alloc_strat = strat, info = geometry\<rparr>"

text \<open>Modelled from the spec: the combined store of section 4.1 (ck\_bag.c is missing):
  the low bits, the real next pointer, stay; the new count goes into the high bits.\<close>

definition block_count_store :: "ck_bag_block \<Rightarrow> 16 word \<Rightarrow> ck_bag_block" where
  "block_count_store blk c =
     blk\<lparr>blk_next := ck_bag_block_next (blk_next blk) OR push_bit 48 (ucast c)\<rparr>"

text \<open>Modelled from the spec: \<open>push_avail\<close> of section 4.2 (ck\_bag.c is missing): link
  the block at the tail of the availability list.\<close>

definition push_avail :: "state \<Rightarrow> uintptr \<Rightarrow> fault + state" where
  "push_avail s b =
     (case s of (h, bag) \<Rightarrow>
        (case h b of
           None \<Rightarrow> Inl Bad_Pointer
         | Some blk \<Rightarrow>
             let h1 = h(b \<mapsto> blk\<lparr>avail_next := 0, avail_prev := avail_tail bag\<rparr>) in
             if avail_tail bag = 0
             then Inr (h1, bag\<lparr>avail_head := b, avail_tail := b\<rparr>)
             else
               (case h1 (avail_tail bag) of
                  None \<Rightarrow> Inl Bad_Pointer
                | Some t \<Rightarrow>
                    Inr (h1(avail_tail bag \<mapsto> t\<lparr>avail_next := b\<rparr>),
                         bag\<lparr>avail_tail := b\<rparr>))))"

text \<open>Modelled from the spec: \<open>retire_avail\<close> of section 4.2 (ck\_bag.c is missing):
  unlink the block from the availability list, not from the chain.\<close>

definition retire_avail :: "state \<Rightarrow> uintptr \<Rightarrow> fault + state" where
  "retire_avail s b =
     (case s of (h, bag) \<Rightarrow>
        (case h b of
           None \<Rightarrow> Inl Bad_Pointer
         | Some blk \<Rightarrow>
             (case (if avail_prev blk = 0
                    then Inr (h, bag\<lparr>avail_head := avail_next blk\<rparr>)
                    else
                      (case h (avail_prev blk) of
                         None \<Rightarrow> Inl Bad_Pointer
                       | Some pb \<Rightarrow>
                           Inr (h(avail_prev blk \<mapsto> pb\<lparr>avail_next := avail_next blk\<rparr>), bag))) of
                Inl f \<Rightarrow> Inl f
              | Inr (h1, bag1) \<Rightarrow>
                  if avail_next blk = 0
                  then Inr (h1, bag1\<lparr>avail_tail := avail_prev blk\<rparr>)
                  else
                    (case h1 (avail_next blk) of
                       None \<Rightarrow> Inl Bad_Pointer
                     | Some nb \<Rightarrow>
                         Inr (h1(avail_next blk \<mapsto> nb\<lparr>avail_prev := avail_prev blk\<rparr>),
                              bag1)))))"

text \<open>Modelled from the spec: the growth policy of section 4.3 (ck\_bag.c is missing).
  Geometric growth allocates as many blocks as the bag has, and one block when it has
  none; linear growth allocates one.\<close>

definition growth_blocks :: "ck_bag \<Rightarrow> nat" where
  "growth_blocks bag =
     (case alloc_strat bag of
        CK_BAG_ALLOCATE_GEOMETRIC \<Rightarrow> (if n_blocks bag = 0 then 1 else unat (n_blocks bag))
      | CK_BAG_ALLOCATE_LINEAR \<Rightarrow> 1)"

text \<open>Modelled from the spec: linking a newly allocated block (ck\_bag.c is missing). The
  block at the fresh address \<open>a\<close> has count zero and the configured capacity, becomes the
  head of the chain and is appended to the availability list.\<close>

definition link_block :: "state \<Rightarrow> uintptr \<Rightarrow> fault + state" where
  "link_block s a =
     (case s of (h, bag) \<Rightarrow>
        push_avail
          (h(a \<mapsto> \<lparr>blk_next = head bag, avail_next = 0, avail_prev = 0,
                   array = replicate (unat (info_max (info bag))) 0\<rparr>),
           bag\<lparr>head := a, n_blocks := n_blocks bag + 1\<rparr>) a)"

text \<open>Modelled from the spec: linking the newly allocated blocks one after the other
  (ck\_bag.c is missing).\<close>

fun link_blocks :: "state \<Rightarrow> uintptr list \<Rightarrow> fault + state" where
  "link_blocks s [] = Inr s"
| "link_blocks s (a # as) =
     (case link_block s a of Inl f \<Rightarrow> Inl f | Inr s' \<Rightarrow> link_blocks s' as)"

text \<open>Modelled from the spec: growth (ck\_bag.c is missing). The allocator is outside the
  bag: \<open>answers\<close> are the addresses its successive calls return during this growth, 0 for
  a failed allocation. When one of the blocks needed is not obtained, nothing is linked
  and the state is as before.\<close>

definition ck_bag_grow :: "state \<Rightarrow> uintptr list \<Rightarrow> fault + bool \<times> state" where
  "ck_bag_grow s answers =
     (let n = growth_blocks (snd s) in
      if length answers < n \<or> 0 \<in> set (take n answers) then Inr (False, s)
      else
        (case link_blocks s (take n answers) of
           Inl f \<Rightarrow> Inl f
         | Inr s' \<Rightarrow> Inr (True, s')))"

text \<open>Modelled from the spec: the insertion step of \<open>put\<close> (ck\_bag.c is missing): write
  the entry into the first free slot \<open>array[count]\<close> of the head of the availability list,
  store the count bumped by one, retire the block from the list when this fills it, and
  increment the bag's entry count.\<close>

definition put_entry :: "state \<Rightarrow> uintptr \<Rightarrow> fault + state" where
  "put_entry s e =
     (case s of (h, bag) \<Rightarrow>
        (case h (avail_head bag) of
           None \<Rightarrow> Inl Bad_Pointer
         | Some blk \<Rightarrow>
             (case ck_bag_block_count h (avail_head bag) of
                Inl f \<Rightarrow> Inl f
              | Inr c \<Rightarrow>
                  if unat c < length (array blk) then
                    (case (let h1 = h(avail_head bag \<mapsto>
                                  block_count_store (blk\<lparr>array := (array blk)[unat c := e]\<rparr>) (c + 1))
                           in if ucast (c + 1) = info_max (info bag)
                              then retire_avail (h1, bag) (avail_head bag)
                              else Inr (h1, bag)) of
                       Inl f \<Rightarrow> Inl f
                     | Inr (h2, bag2) \<Rightarrow> Inr (h2, bag2\<lparr>n_entries := n_entries bag2 + 1\<rparr>))
                  else Inl Out_Of_Bounds)))"

text \<open>Modelled from the spec: \<open>ck_bag_put_spmc\<close> (ck\_bag.c is missing). It fails only
  when growth was needed and an allocation failed.\<close>

definition ck_bag_put_spmc :: "state \<Rightarrow> uintptr \<Rightarrow> uintptr list \<Rightarrow> fault + bool \<times> state" where
  "ck_bag_put_spmc s e answers =
     (if avail_head (snd s) \<noteq> 0
      then (case put_entry s e of Inl f \<Rightarrow> Inl f | Inr s' \<Rightarrow> Inr (True, s'))
      else
        (case ck_bag_grow s answers of
           Inl f \<Rightarrow> Inl f
         | Inr (grown, s') \<Rightarrow>
             if grown
             then (case put_entry s' e of Inl f \<Rightarrow> Inl f | Inr s'' \<Rightarrow> Inr (True, s''))
             else Inr (False, s)))"

text \<open>Modelled from the spec: the linear scan of \<open>set\<close> and \<open>remove\<close> over the live slots
  of one block (ck\_bag.c is missing): the index of the first of the next \<open>n\<close> slots that holds
  \<open>e\<close>, counting from \<open>i\<close>.\<close>

fun scan_slots :: "uintptr list \<Rightarrow> nat \<Rightarrow> uintptr \<Rightarrow> nat \<Rightarrow> fault + nat option" where
  "scan_slots arr 0 e i = Inr None"
| "scan_slots [] (Suc n) e i = Inl Out_Of_Bounds"
| "scan_slots (x # xs) (Suc n) e i =
     (if x = e then Inr (Some i) else scan_slots xs n e (Suc i))"

text \<open>Modelled from the spec: the linear scan of \<open>set\<close> and \<open>remove\<close> along the chain
  (ck\_bag.c is missing): block and index of the first match. A scan that does not return has no value
  (\<open>None\<close>).\<close>

partial_function (option) find_entry ::
    "heap \<Rightarrow> uintptr \<Rightarrow> uintptr \<Rightarrow> (fault + (uintptr \<times> nat) option) option" where
  "find_entry h p e =
     (if p = 0 then Some (Inr None)
      else
        (case h p of
           None \<Rightarrow> Some (Inl Bad_Pointer)
         | Some blk \<Rightarrow>
             (case ck_bag_block_count h p of
                Inl f \<Rightarrow> Some (Inl f)
              | Inr c \<Rightarrow>
                  (case scan_slots (array blk) (unat c) e 0 of
                     Inl f \<Rightarrow> Some (Inl f)
                   | Inr None \<Rightarrow> find_entry h (ck_bag_block_next (blk_next blk)) e
                   | Inr (Some i) \<Rightarrow> Some (Inr (Some (p, i)))))))"

declare find_entry.simps [code]

text \<open>Modelled from the spec: the removal step of \<open>remove\<close> (ck\_bag.c is missing): copy the
  block's last live slot into the vacated position unless that is the last, store the
  count decremented by one, re-link the block onto the availability list when it was
  full, and decrement the bag's entry count.\<close>

definition remove_at :: "state \<Rightarrow> uintptr \<Rightarrow> nat \<Rightarrow> fault + state" where
  "remove_at s b i =
     (case s of (h, bag) \<Rightarrow>
        (case h b of
           None \<Rightarrow> Inl Bad_Pointer
         | Some blk \<Rightarrow>
             (case ck_bag_block_count h b of
                Inl f \<Rightarrow> Inl f
              | Inr c \<Rightarrow>
                  if unat c - 1 < length (array blk) then
                    (case (let arr = (if i \<noteq> unat c - 1
                                      then (array blk)[i := array blk ! (unat c - 1)]
                                      else array blk);
                               h1 = h(b \<mapsto> block_count_store (blk\<lparr>array := arr\<rparr>) (c - 1))
                           in if ucast c = info_max (info bag)
                              then push_avail (h1, bag) b
                              else Inr (h1, bag)) of
                       Inl f \<Rightarrow> Inl f
                     | Inr (h2, bag2) \<Rightarrow> Inr (h2, bag2\<lparr>n_entries := n_entries bag2 - 1\<rparr>))
                  else Inl Out_Of_Bounds)))"

text \<open>Modelled from the spec: \<open>ck_bag_remove_spmc\<close> (ck\_bag.c is missing). It fails when
  the entry is not found.\<close>

definition ck_bag_remove_spmc :: "state \<Rightarrow> uintptr \<Rightarrow> (fault + bool \<times> state) option" where
  "ck_bag_remove_spmc s e =
     (case find_entry (fst s) (head (snd s)) e of
        None \<Rightarrow> None
      | Some (Inl f) \<Rightarrow> Some (Inl f)
      | Some (Inr None) \<Rightarrow> Some (Inr (False, s))
      | Some (Inr (Some (b, i))) \<Rightarrow>
          (case remove_at s b i of
             Inl f \<Rightarrow> Some (Inl f)
           | Inr s' \<Rightarrow> Some (Inr (True, s'))))"

text \<open>Modelled from the spec: \<open>ck_bag_set_spmc\<close> (ck\_bag.c is missing): scan the live
  slots of the chain for a value equal to \<open>old\<close> and overwrite the first match with \<open>new\<close> by
  one store. It fails when \<open>old\<close> is not found.\<close>

definition ck_bag_set_spmc :: "state \<Rightarrow> uintptr \<Rightarrow> uintptr \<Rightarrow> (fault + bool \<times> state) option" where
  "ck_bag_set_spmc s old new =
     (case find_entry (fst s) (head (snd s)) old of
        None \<Rightarrow> None
      | Some (Inl f) \<Rightarrow> Some (Inl f)
      | Some (Inr None) \<Rightarrow> Some (Inr (False, s))
      | Some (Inr (Some (b, i))) \<Rightarrow>
          (case fst s b of
             None \<Rightarrow> Some (Inl Bad_Pointer)
           | Some blk \<Rightarrow>
               if i < length (array blk)
               then Some (Inr (True, (fst s)(b \<mapsto> blk\<lparr>array := (array blk)[i := new]\<rparr>), snd s))
               else Some (Inl Out_Of_Bounds)))"

subsection \<open>Sequences of operations\<close>

text \<open>One call of the single mutator: a put with the allocator's answers to the
  allocations it makes, or a remove.\<close>

datatype bag_op = Put uintptr "uintptr list" | Remove uintptr

fun exec_op :: "state \<Rightarrow> bag_op \<Rightarrow> (fault + bool \<times> state) option" where
  "exec_op s (Put e answers) = Some (ck_bag_put_spmc s e answers)"
| "exec_op s (Remove e) = ck_bag_remove_spmc s e"

text \<open>Running a sequence of calls gives the final state and the flag each call
  returned.\<close>

fun run :: "state \<Rightarrow> bag_op list \<Rightarrow> (fault + state \<times> bool list) option" where
  "run s [] = Some (Inr (s, []))"
| "run s (x # xs) =
     (case exec_op s x of
        None \<Rightarrow> None
      | Some (Inl f) \<Rightarrow> Some (Inl f)
      | Some (Inr (r, s')) \<Rightarrow>
          (case run s' xs of
             None \<Rightarrow> None
           | Some (Inl f) \<Rightarrow> Some (Inl f)
           | Some (Inr (s'', rs)) \<Rightarrow> Some (Inr (s'', r # rs))))"

text \<open>The calls of the single mutator that change the bag between \<open>ck_bag_init\<close>, which
  starts its life, and \<open>ck_bag_destroy\<close>, which ends it: put, remove and set. The member
  test and the iterator only read.\<close>

datatype mutator_op = Put_Remove bag_op | Set_Entry uintptr uintptr

fun exec_mutator :: "state \<Rightarrow> mutator_op \<Rightarrow> (fault + bool \<times> state) option" where
  "exec_mutator s (Put_Remove x) = exec_op s x"
| "exec_mutator s (Set_Entry old new) = ck_bag_set_spmc s old new"

fun run_mutator :: "state \<Rightarrow> mutator_op list \<Rightarrow> (fault + state \<times> bool list) option" where
  "run_mutator s [] = Some (Inr (s, []))"
| "run_mutator s (x # xs) =
     (case exec_mutator s x of
        None \<Rightarrow> None
      | Some (Inl f) \<Rightarrow> Some (Inl f)
      | Some (Inr (r, s')) \<Rightarrow>
          (case run_mutator s' xs of
             None \<Rightarrow> None
           | Some (Inl f) \<Rightarrow> Some (Inl f)
           | Some (Inr (s'', rs)) \<Rightarrow> Some (Inr (s'', r # rs))))"

subsection \<open>The well-formed bag\<close>

text \<open>The count a block's word holds, as a number (0 for an address that is no block),
  and the slots below it: the block's live entries.\<close>

definition block_live_count :: "heap \<Rightarrow> uintptr \<Rightarrow> nat" where
  "block_live_count h b = (case ck_bag_block_count h b of Inl f \<Rightarrow> 0 | Inr c \<Rightarrow> unat c)"

definition live_slots :: "heap \<Rightarrow> uintptr \<Rightarrow> uintptr list" where
  "live_slots h b =
     (case h b of None \<Rightarrow> [] | Some blk \<Rightarrow> take (block_live_count h b) (array blk))"

text \<open>The entries of the bag: what the live slots of the blocks of the chain hold, as a
  multiset.\<close>

definition bag_contents :: "heap \<Rightarrow> uintptr list \<Rightarrow> uintptr multiset" where
  "bag_contents h bs = sum_list (map (\<lambda>b. mset (live_slots h b)) bs)"

text \<open>\<open>avail_list h prev p bs\<close>: following the \<open>avail_next\<close> fields from \<open>p\<close> visits exactly
  the blocks \<open>bs\<close> and then reaches \<open>NULL\<close>, and the \<open>avail_prev\<close> field of each points to the
  block before it (\<open>prev\<close> for the first).\<close>

fun avail_list :: "heap \<Rightarrow> uintptr \<Rightarrow> uintptr \<Rightarrow> uintptr list \<Rightarrow> bool" where
  "avail_list h prev p [] = (p = 0)"
| "avail_list h prev p (b # bs) =
     (p = b \<and> b \<noteq> 0 \<and>
      (case h b of None \<Rightarrow> False
       | Some blk \<Rightarrow> avail_prev blk = prev \<and> avail_list h b (avail_next blk) bs))"

text \<open>A block of a bag of capacity \<open>cap\<close>: its address has the top 16 bits clear, its array
  has \<open>cap\<close> slots, and its count is at most \<open>cap\<close>.\<close>

definition block_ok :: "heap \<Rightarrow> nat \<Rightarrow> uintptr \<Rightarrow> bool" where
  "block_ok h cap b =
     (b AND CK_BAG_BLOCK_ENTRIES_MASK = 0 \<and>
      (case h b of None \<Rightarrow> False | Some blk \<Rightarrow> length (array blk) = cap) \<and>
      block_live_count h b \<le> cap)"

text \<open>The invariant of section 3 for the bag whose chain is \<open>bs\<close> and whose availability
  list is \<open>avl\<close>: the chain is well formed, the availability list is the doubly-linked
  list of the blocks that are not full, the two counters are the sums they stand for
  (as \<open>unsigned int\<close>), and the capacity is between 1 and 65535.\<close>

definition bag_inv :: "state \<Rightarrow> uintptr list \<Rightarrow> uintptr list \<Rightarrow> bool" where
  "bag_inv s bs avl =
     (case s of (h, bag) \<Rightarrow>
        chain h (head bag) bs \<and>
        (\<forall>b\<in>set bs. block_ok h (unat (info_max (info bag))) b) \<and>
        avail_list h 0 (avail_head bag) avl \<and>
        avail_tail bag = (if avl = [] then 0 else last avl) \<and>
        distinct avl \<and>
        set avl = {b \<in> set bs. block_live_count h b < unat (info_max (info bag))} \<and>
        n_entries bag = of_nat (sum_list (map (block_live_count h) bs)) \<and>
        n_blocks bag = of_nat (length bs) \<and>
        0 < unat (info_max (info bag)) \<and> unat (info_max (info bag)) \<le> 65535)"

text \<open>What the model assumes of the allocator: the addresses it returns during one put
  are distinct, are not addresses of blocks in use, and have the top 16 bits clear (the
  spare bits section 3 relies on); 0 stands for a failed allocation.\<close>

definition answers_fresh :: "heap \<Rightarrow> uintptr list \<Rightarrow> bool" where
  "answers_fresh h answers =
     (distinct (filter (\<lambda>a. a \<noteq> 0) answers) \<and>
      (\<forall>a\<in>set answers. a \<noteq> 0 \<longrightarrow> h a = None \<and> a AND CK_BAG_BLOCK_ENTRIES_MASK = 0))"

fun allocator_ok :: "state \<Rightarrow> bag_op list \<Rightarrow> bool" where
  "allocator_ok s [] = True"
| "allocator_ok s (x # xs) =
     ((case x of Put e answers \<Rightarrow> answers_fresh (fst s) answers | Remove e \<Rightarrow> True) \<and>
      (case exec_op s x of
         Some (Inr (r, s')) \<Rightarrow> allocator_ok s' xs
       | _ \<Rightarrow> True))"

fun mutator_allocator_ok :: "state \<Rightarrow> mutator_op list \<Rightarrow> bool" where
  "mutator_allocator_ok s [] = True"
| "mutator_allocator_ok s (x # xs) =
     ((case x of Put_Remove (Put e answers) \<Rightarrow> answers_fresh (fst s) answers | _ \<Rightarrow> True) \<and>
      (case exec_mutator s x of
         Some (Inr (r, s')) \<Rightarrow> mutator_allocator_ok s' xs
       | _ \<Rightarrow> True))"

text \<open>The multiset a sequence of calls with the given results describes, and the numbers of
  its successful puts and removes.\<close>

fun contents_after :: "uintptr multiset \<Rightarrow> bag_op list \<Rightarrow> bool list \<Rightarrow> uintptr multiset" where
  "contents_after M (Put e answers # xs) (r # rs) =
     contents_after (if r then add_mset e M else M) xs rs"
| "contents_after M (Remove e # xs) (r # rs) =
     contents_after (if r then M - {#e#} else M) xs rs"
| "contents_after M xs rs = M"

fun puts_ok :: "bag_op list \<Rightarrow> bool list \<Rightarrow> nat" where
  "puts_ok (Put e answers # xs) (r # rs) = (if r then 1 else 0) + puts_ok xs rs"
| "puts_ok (Remove e # xs) (r # rs) = puts_ok xs rs"
| "puts_ok xs rs = 0"

fun removes_ok :: "bag_op list \<Rightarrow> bool list \<Rightarrow> nat" where
  "removes_ok (Put e answers # xs) (r # rs) = removes_ok xs rs"
| "removes_ok (Remove e # xs) (r # rs) = (if r then 1 else 0) + removes_ok xs rs"
| "removes_ok xs rs = 0"

text \<open>Two stores agree on what the chain, the counts and the slots are made of: the
  \<open>next\<close> word and the array of every block.\<close>

definition same_data :: "heap \<Rightarrow> heap \<Rightarrow> bool" where
  "same_data h h' =
     (\<forall>x. map_option blk_next (h' x) = map_option blk_next (h x)
        \<and> map_option array (h' x) = map_option array (h x))"

subsection \<open>Example runs\<close>

text \<open>The scenario of section 8: blocks of four entries, geometric growth; four puts fill
  the first block (allocated at \<open>0x40\<close>), the fifth grows the bag by one block (at \<open>0x80\<close>),
  then one entry is removed and a remove of a value never inserted fails.\<close>

definition scenario_geometry :: ck_bag_block_info where
  "scenario_geometry = \<lparr>info_max = 4, info_bytes = 64\<rparr>"

definition scenario_ops :: "bag_op list" where
  "scenario_ops =
     [Put 0xA [0x40], Put 0xB [], Put 0xC [], Put 0xD [], Put 0xE [0x80],
      Remove 0xB, Remove 0x77]"

text \<open>The same scenario with a set of a stored value before the remove and a set of a
  value never inserted at the end.\<close>

definition scenario_mutator_ops :: "mutator_op list" where
  "scenario_mutator_ops =
     [Put_Remove (Put 0xA [0x40]), Put_Remove (Put 0xB []), Put_Remove (Put 0xC []),
      Put_Remove (Put 0xD []), Put_Remove (Put 0xE [0x80]), Set_Entry 0xC 0xF,
      Put_Remove (Remove 0xB), Set_Entry 0x77 0x78]"

text \<open>Blocks of one entry, linear growth: three puts make three blocks, each new one at
  the head of the chain; removing the second value leaves the middle block of the chain
  without live entries.\<close>

definition gap_ops :: "bag_op list" where
  "gap_ops = [Put 0xA [0xC0], Put 0xB [0x80], Put 0xC [0x40], Remove 0xB]"

text \<open>The answers the allocator gives during one call.\<close>

fun op_answers :: "bag_op \<Rightarrow> uintptr list" where
  "op_answers (Put e answers) = answers"
| "op_answers (Remove e) = []"

text \<open>A long run: \<open>n\<close> puts of the value 1, the allocator answering the \<open>k\<close>-th of them
  (counted from 1) with the address \<open>64 * k\<close>, on a bag with linear growth and blocks of
  65535 entries.\<close>

definition put_seq :: "nat \<Rightarrow> bag_op list" where
  "put_seq n = map (\<lambda>k. Put 1 [push_bit 6 (of_nat (Suc k))]) [0..<n]"

definition large_geometry :: ck_bag_block_info where
  "large_geometry = \<lparr>info_max = 65535, info_bytes = 524352\<rparr>"

text \<open>What a run leaves to compare: the value of \<open>ck_bag_count\<close> on the final bag, and the
  numbers of successful puts and removes.\<close>

definition run_counts :: "state \<Rightarrow> bag_op list \<Rightarrow> (32 word \<times> nat \<times> nat) option" where
  "run_counts s ops =
     (case run s ops of
        Some (Inr ((h, bag), rs)) \<Rightarrow> Some (ck_bag_count bag, puts_ok ops rs, removes_ok ops rs)
      | _ \<Rightarrow> None)"

section \<open>The packed word: count and next pointer\<close>

lemma mask_eq: "CK_BAG_BLOCK_ENTRIES_MASK = push_bit 48 (mask 16)"
  by (simp add: CK_BAG_BLOCK_ENTRIES_MASK_def mask_eq_exp_minus_1)

lemma mask_bits:
  "bit CK_BAG_BLOCK_ENTRIES_MASK n \<longleftrightarrow> 48 \<le> n \<and> n < 64"
  by (auto simp: mask_eq bit_push_bit_iff bit_mask_iff dest: bit_imp_le_length)

lemma next_bits: "bit (ck_bag_block_next b) n \<longleftrightarrow> bit b n \<and> n < 48"
  by (auto simp: ck_bag_block_next_def bit_and_iff bit_not_iff mask_bits dest: bit_imp_le_length)

lemma and_mask_zero_iff:
  "p AND CK_BAG_BLOCK_ENTRIES_MASK = 0 \<longleftrightarrow> (\<forall>n. bit p n \<longrightarrow> n < 48)"
proof
  assume z: "p AND CK_BAG_BLOCK_ENTRIES_MASK = 0"
  show "\<forall>n. bit p n \<longrightarrow> n < 48"
  proof (intro allI impI)
    fix n assume b: "bit p n"
    have "\<not> bit (p AND CK_BAG_BLOCK_ENTRIES_MASK) n" by (simp add: z)
    with b have "\<not> bit CK_BAG_BLOCK_ENTRIES_MASK n" by (simp add: bit_and_iff)
    moreover from b have "n < 64" by (auto dest: bit_imp_le_length)
    ultimately show "n < 48" by (simp add: mask_bits)
  qed
next
  assume "\<forall>n. bit p n \<longrightarrow> n < 48"
  then show "p AND CK_BAG_BLOCK_ENTRIES_MASK = 0"
    by (intro bit_word_eqI) (auto simp: bit_and_iff mask_bits)
qed

lemma next_packed:
  assumes "p AND CK_BAG_BLOCK_ENTRIES_MASK = 0"
  shows "ck_bag_block_next (p OR push_bit 48 w) = p"
  using assms unfolding and_mask_zero_iff
  by (intro bit_word_eqI) (auto simp: next_bits bit_or_iff bit_push_bit_iff)

lemma count_packed:
  assumes "p AND CK_BAG_BLOCK_ENTRIES_MASK = 0"
  shows "(ucast (drop_bit 48 (p OR push_bit 48 (ucast (c :: 16 word) :: uintptr))) :: 16 word) = c"
  using assms unfolding and_mask_zero_iff
  by (intro bit_word_eqI)
    (auto simp: bit_ucast_iff bit_drop_bit_eq bit_or_iff bit_push_bit_iff dest: bit_imp_le_length)

lemma of_nat_ucast16: "c \<le> 65535 \<Longrightarrow> (of_nat c :: uintptr) = ucast (of_nat c :: 16 word)"
  by (simp add: unsigned_of_nat take_bit_nat_eq_self)

lemma unat_of_nat16: "c \<le> 65535 \<Longrightarrow> unat (of_nat c :: 16 word) = c"
  by (simp add: unat_of_nat take_bit_nat_eq_self)

lemma next_idem: "ck_bag_block_next (ck_bag_block_next b) = ck_bag_block_next b"
  by (rule bit_word_eqI) (simp add: next_bits)

lemma next_top_clear: "ck_bag_block_next b AND CK_BAG_BLOCK_ENTRIES_MASK = 0"
  by (simp add: and_mask_zero_iff next_bits)

text \<open>
  Claim C1. A block whose \<open>next\<close> word is a pointer \<open>p\<close> with clear top 16 bits, combined
  with a count \<open>c \<le> 65535\<close> shifted into those bits, decodes to both parts:
  \<open>ck_bag_block_count\<close> returns \<open>c\<close> and \<open>ck_bag_block_next\<close> returns \<open>p\<close>, whose top 16
  bits are clear. The count field is 16 bits wide.
\<close>

theorem block_word_decode:
  assumes "p AND CK_BAG_BLOCK_ENTRIES_MASK = 0" and "c \<le> 65535"
    and "h b = Some blk" and "blk_next blk = p OR push_bit 48 (of_nat c)"
  shows "(\<exists>r. ck_bag_block_count h b = Inr r \<and> unat r = c)
       \<and> ck_bag_block_next (blk_next blk) = p
       \<and> ck_bag_block_next (blk_next blk) AND CK_BAG_BLOCK_ENTRIES_MASK = 0"
proof -
  have "blk_next blk = p OR push_bit 48 (ucast (of_nat c :: 16 word))"
    using assms(2,4) by (simp only: of_nat_ucast16)
  then have "(ucast (drop_bit 48 (blk_next blk)) :: 16 word) = of_nat c"
    by (simp only: count_packed [OF assms(1)])
  then have "ck_bag_block_count h b = Inr (of_nat c)"
    using assms(3) by (simp add: ck_bag_block_count_def)
  moreover have "ck_bag_block_next (blk_next blk) = p"
    using assms by (simp add: next_packed)
  ultimately show ?thesis using assms by (simp add: unat_of_nat16)
qed

theorem block_word_decode_witness:
  "(0x2000 :: uintptr) AND CK_BAG_BLOCK_ENTRIES_MASK = 0 \<and> (3 :: nat) \<le> 65535
   \<and> (\<exists>r. ck_bag_block_count
             [0x1000 \<mapsto> \<lparr>blk_next = 0x2000 OR push_bit 48 (of_nat 3), avail_next = 0,
                          avail_prev = 0, array = []\<rparr>] 0x1000 = Inr r \<and> unat r = 3)
   \<and> ck_bag_block_next (0x2000 OR push_bit 48 (of_nat 3)) = 0x2000"
  using block_word_decode [of "0x2000" 3
      "[0x1000 \<mapsto> \<lparr>blk_next = 0x2000 OR push_bit 48 (of_nat 3), avail_next = 0,
                    avail_prev = 0, array = []\<rparr>]" "0x1000"
      "\<lparr>blk_next = 0x2000 OR push_bit 48 (of_nat 3), avail_next = 0, avail_prev = 0,
        array = []\<rparr>"]
  by (simp add: CK_BAG_BLOCK_ENTRIES_MASK_def)

text \<open>
  Claim C10. \<open>ck_bag_block_next\<close> is idempotent on every pointer-sized word, and its
  result has the top 16 bits (the count bits) clear.
\<close>

theorem block_next_idempotent:
  "ck_bag_block_next (ck_bag_block_next b) = ck_bag_block_next b
   \<and> ck_bag_block_next b AND CK_BAG_BLOCK_ENTRIES_MASK = 0
   \<and> drop_bit 48 (ck_bag_block_next b) = 0"
proof -
  have "drop_bit 48 (ck_bag_block_next b) = 0"
    by (rule bit_word_eqI) (simp add: next_bits bit_drop_bit_eq)
  then show ?thesis by (simp add: next_idem next_top_clear)
qed

section \<open>One call of ck\_bag\_next\<close>

lemmas eval_defs = ck_bag_next_def ck_bag_block_count_def ck_bag_block_next_def
  CK_BAG_BLOCK_ENTRIES_MASK_def ck_bag_next_load_def ck_bag_iterator_init_def
  count_in_capacity_def Let_def

lemma next_load_in_bounds:
  assumes "block it \<noteq> 0" "h (block it) = Some blk" "unat (index it) < length (array blk)"
  shows "ck_bag_next_load h it e =
     Inr \<lparr>ret = True, iter = it\<lparr>index := index it + 1\<rparr>,
          entry = array blk ! unat (index it), slot_read = Some (block it, index it)\<rparr>"
  using assms by (simp add: ck_bag_next_load_def)

lemma unat_index_succ:
  fixes i n :: "16 word"
  assumes "i < n"
  shows "unat (i + 1) = unat i + 1"
proof -
  have "unat i < unat n" using assms by (simp add: word_less_nat_alt)
  moreover have "unat n < 2 ^ 16" using unsigned_less [of n] by simp
  ultimately have "unat i + 1 < 2 ^ 16" by simp
  then show ?thesis by (simp add: unat_word_ariths)
qed

lemma next_below_count:
  assumes "block it \<noteq> 0" and "h (block it) = Some blk"
    and "ck_bag_block_count h (block it) = Inr n" and "index it < n"
    and "unat (index it) < length (array blk)"
  shows "ck_bag_next h it e =
           Inr \<lparr>ret = True, iter = \<lparr>block = block it, index = index it + 1\<rparr>,
                entry = array blk ! unat (index it),
                slot_read = Some (block it, index it)\<rparr>"
proof -
  have "\<not> n \<le> index it" using assms(4) by simp
  then have "ck_bag_next h it e = ck_bag_next_load h it e"
    using assms(1,3) by (simp add: ck_bag_next_def)
  then show ?thesis
    using next_load_in_bounds [of it h blk e] assms(1,2,5) by simp
qed

text \<open>
  Claim C6. When the iterator's block is present (a block of the store whose slot at the
  index exists) and the index is strictly below the count the block's word holds,
  \<open>ck_bag_next\<close> returns true, stores the slot at the index in \<open>*entry\<close>, and advances the
  index by exactly one (no wrap-around), leaving the block unchanged.
\<close>

theorem next_within_count:
  assumes "block it \<noteq> 0" and "h (block it) = Some blk"
    and "ck_bag_block_count h (block it) = Inr n" and "index it < n"
    and "unat (index it) < length (array blk)"
  shows "ck_bag_next h it e =
           Inr \<lparr>ret = True, iter = \<lparr>block = block it, index = index it + 1\<rparr>,
                entry = array blk ! unat (index it),
                slot_read = Some (block it, index it)\<rparr>
         \<and> unat (index it + 1) = unat (index it) + 1"
  using next_below_count [OF assms] unat_index_succ [OF assms(4)] by simp

theorem next_within_count_witness:
  "ck_bag_block_count gap_heap 0xC0 = Inr 1
   \<and> ck_bag_next gap_heap \<lparr>block = 0xC0, index = 0\<rparr> 0 =
        Inr \<lparr>ret = True, iter = \<lparr>block = 0xC0, index = 1\<rparr>, entry = 9,
             slot_read = Some (0xC0, 0)\<rparr>"
  using next_within_count [of "\<lparr>block = 0xC0, index = 0\<rparr>" gap_heap
      "\<lparr>blk_next = push_bit 48 1, avail_next = 0, avail_prev = 0, array = [9]\<rparr>" 1 0]
  by (simp add: gap_heap_def eval_defs)

text \<open>
  Claim C9. A call of \<open>ck_bag_next\<close> that returns false does not write through \<open>entry\<close>:
  the caller's location keeps its value, and the call reads no slot.
\<close>

theorem next_false_keeps_entry:
  assumes "ck_bag_next h it e = Inr r" and "\<not> ret r"
  shows "entry r = e \<and> slot_read r = None"
  using assms
  by (auto simp: ck_bag_next_def ck_bag_next_load_def Let_def
      split: if_splits sum.splits option.splits)

theorem next_false_keeps_entry_witness:
  "ck_bag_next gap_heap \<lparr>block = 0x40, index = 1\<rparr> 7 =
     Inr \<lparr>ret = False, iter = \<lparr>block = 0x80, index = 1\<rparr>, entry = 7, slot_read = None\<rparr>"
  using next_false_keeps_entry [of gap_heap "\<lparr>block = 0x40, index = 1\<rparr>" 7
      "\<lparr>ret = False, iter = \<lparr>block = 0x80, index = 1\<rparr>, entry = 7, slot_read = None\<rparr>"]
  by (simp add: gap_heap_def eval_defs)

text \<open>
  Claim C8. \<open>ck_bag_iterator_init\<close> sets the iterator's block to the bag's chain head and
  its index to 0; when the head is \<open>NULL\<close>, the first call of \<open>ck_bag_next\<close> returns false
  and leaves \<open>*entry\<close> and the iterator as they were.
\<close>

theorem iterator_init_head:
  "ck_bag_iterator_init bag = \<lparr>block = head bag, index = 0\<rparr>
   \<and> (head bag = 0 \<longrightarrow>
        ck_bag_next h (ck_bag_iterator_init bag) e =
          Inr \<lparr>ret = False, iter = ck_bag_iterator_init bag, entry = e, slot_read = None\<rparr>)"
  by (simp add: ck_bag_iterator_init_def ck_bag_next_def)

theorem iterator_init_head_witness:
  "head (gap_bag\<lparr>head := 0\<rparr>) = 0
   \<and> ck_bag_next Map.empty (ck_bag_iterator_init (gap_bag\<lparr>head := 0\<rparr>)) 5 =
     Inr \<lparr>ret = False, iter = \<lparr>block = 0, index = 0\<rparr>, entry = 5, slot_read = None\<rparr>"
  using iterator_init_head [of "gap_bag\<lparr>head := 0\<rparr>" Map.empty 5]
  by (simp add: ck_bag_iterator_init_def)

section \<open>Iterating over a chain\<close>

lemma chain_member:
  "chain h p bs \<Longrightarrow> b \<in> set bs \<Longrightarrow>
     b \<noteq> 0 \<and> (\<exists>blk. h b = Some blk \<and>
        (ck_bag_block_next (blk_next blk) = 0 \<or> ck_bag_block_next (blk_next blk) \<in> set bs))"
proof (induction bs arbitrary: p)
  case Nil
  then show ?case by simp
next
  case (Cons a bs)
  from Cons.prems(1) obtain blk where a: "p = a" "a \<noteq> 0" "h a = Some blk"
    and rest: "chain h (ck_bag_block_next (blk_next blk)) bs"
    by (auto split: option.splits)
  show ?case
  proof (cases "b = a")
    case True
    have "ck_bag_block_next (blk_next blk) = 0 \<or> ck_bag_block_next (blk_next blk) \<in> set bs"
      using rest by (cases bs) (auto split: option.splits)
    with True a show ?thesis by auto
  next
    case False
    with Cons.prems(2) have "b \<in> set bs" by simp
    from Cons.IH [OF rest this] show ?thesis by auto
  qed
qed

lemma chain_head: "chain h p bs \<Longrightarrow> p = 0 \<or> p \<in> set bs"
  by (cases bs) auto

lemma next_block_stays:
  assumes "ck_bag_next h it e = Inr r"
    and "block it \<noteq> 0" and "h (block it) = Some blk"
  shows "block (iter r) = block it \<or> block (iter r) = ck_bag_block_next (blk_next blk)"
  using assms
  by (auto simp: ck_bag_next_def ck_bag_next_load_def Let_def
      split: if_splits sum.splits option.splits)

lemma next_null_stays:
  "block it = 0 \<Longrightarrow> ck_bag_next h it e = Inr r \<Longrightarrow> block (iter r) = 0"
  by (auto simp: ck_bag_next_def)

lemma it_reach_in_chain:
  assumes "chain h (head bag) bs" and "it_reach h bag it"
  shows "block it = 0 \<or> block it \<in> set bs"
  using assms(2)
proof (induction rule: it_reach.induct)
  case reach_init
  then show ?case using chain_head [OF assms(1)] by (simp add: ck_bag_iterator_init_def)
next
  case (reach_next it e r)
  show ?case
  proof (cases "block it = 0")
    case True
    then show ?thesis using next_null_stays reach_next.hyps(2) by blast
  next
    case False
    with reach_next.IH have mem: "block it \<in> set bs" by simp
    from chain_member [OF assms(1) mem] obtain blk where
      blk: "h (block it) = Some blk"
      and nx: "ck_bag_block_next (blk_next blk) = 0 \<or> ck_bag_block_next (blk_next blk) \<in> set bs"
      by blast
    from next_block_stays [OF reach_next.hyps(2) False blk] mem nx show ?thesis by auto
  qed
qed

lemma next_reads_in_bounds:
  assumes nz: "block it = 0 \<or> block it \<in> set bs"
    and ch: "chain h p bs"
    and cap: "\<forall>b\<in>set bs. count_in_capacity h b"
  shows "\<exists>r. ck_bag_next h it e = Inr r \<and>
           (\<forall>b i. slot_read r = Some (b, i) \<longrightarrow>
              (\<exists>blk c. h b = Some blk \<and> ck_bag_block_count h b = Inr c \<and> i < c
                         \<and> unat i < length (array blk)))"
proof (cases "block it = 0")
  case True
  then show ?thesis by (simp add: ck_bag_next_def)
next
  case False
  with nz have mem: "block it \<in> set bs" by simp
  from chain_member [OF ch mem] obtain blk where
    blk: "h (block it) = Some blk"
    and nx: "ck_bag_block_next (blk_next blk) = 0 \<or> ck_bag_block_next (blk_next blk) \<in> set bs"
    by blast
  define n :: "16 word" where "n = ucast (drop_bit 48 (blk_next blk))"
  have cnt: "ck_bag_block_count h (block it) = Inr n"
    using blk by (simp add: ck_bag_block_count_def n_def)
  have capn: "unat n \<le> length (array blk)"
    using cap mem blk cnt by (auto simp: count_in_capacity_def)
  show ?thesis
  proof (cases "index it < n")
    case True
    then have "unat (index it) < length (array blk)"
      using capn by (simp add: word_less_nat_alt)
    from next_below_count [OF False blk cnt True this, of e] show ?thesis
      using blk cnt True \<open>unat (index it) < length (array blk)\<close> by auto
  next
    case nlt: False
    then have ge: "n \<le> index it" by (simp add: not_less)
    let ?q = "ck_bag_block_next (blk_next blk)"
    show ?thesis
    proof (cases "?q = 0")
      case True
      then show ?thesis using False cnt ge blk by (simp add: ck_bag_next_def Let_def)
    next
      case qnz: False
      with nx have qmem: "?q \<in> set bs" by simp
      from chain_member [OF ch qmem] obtain blk' where blk': "h ?q = Some blk'" by blast
      define c :: "16 word" where "c = ucast (drop_bit 48 (blk_next blk'))"
      have cnt': "ck_bag_block_count h ?q = Inr c"
        using blk' by (simp add: ck_bag_block_count_def c_def)
      have capc: "unat c \<le> length (array blk')"
        using cap qmem blk' cnt' by (auto simp: count_in_capacity_def)
      show ?thesis
      proof (cases "c = 0")
        case True
        then show ?thesis using False cnt ge blk qnz cnt'
          by (simp add: ck_bag_next_def Let_def)
      next
        case cnz: False
        then have "0 < c" by (simp add: word_greater_zero_iff)
        then have "0 < unat c" by (simp add: word_less_nat_alt)
        with capc have pos: "0 < length (array blk')" by linarith
        have "ck_bag_next h it e = ck_bag_next_load h (it\<lparr>block := ?q, index := 0\<rparr>) e"
          using False cnt ge blk qnz cnt' cnz by (simp add: ck_bag_next_def Let_def)
        also have "\<dots> = Inr \<lparr>ret = True, iter = \<lparr>block = ?q, index = 1\<rparr>,
             entry = array blk' ! 0, slot_read = Some (?q, 0)\<rparr>"
          using qnz blk' pos by (simp add: ck_bag_next_load_def)
        finally show ?thesis using blk' cnt' \<open>0 < c\<close> pos by simp
      qed
    qed
  qed
qed


text \<open>
  Claim C3. On a store whose chain from the bag's head is well formed (it ends at \<open>NULL\<close>
  and no block's count exceeds its capacity), a call of \<open>ck_bag_next\<close> on an iterator
  state reached from \<open>ck_bag_iterator_init\<close> returns without a fault, and a slot it reads
  is at an index strictly below the count of the block it reads from, inside the block's
  array.
\<close>

theorem next_reads_below_count:
  assumes "chain h (head bag) bs"
    and "\<forall>b\<in>set bs. count_in_capacity h b"
    and "it_reach h bag it"
  shows "\<exists>r. ck_bag_next h it e = Inr r \<and>
           (\<forall>b i. slot_read r = Some (b, i) \<longrightarrow>
              (\<exists>blk c. h b = Some blk \<and> ck_bag_block_count h b = Inr c \<and> i < c
                         \<and> unat i < length (array blk)))"
  using next_reads_in_bounds [OF it_reach_in_chain [OF assms(1,3)] assms(1,2)] .

theorem next_reads_below_count_witness:
  "chain gap_heap (head gap_bag) [0x40, 0x80, 0xC0]
   \<and> count_in_capacity gap_heap 0x40 \<and> count_in_capacity gap_heap 0x80
   \<and> count_in_capacity gap_heap 0xC0
   \<and> ck_bag_next gap_heap (ck_bag_iterator_init gap_bag) 0 =
       Inr \<lparr>ret = True, iter = \<lparr>block = 0x40, index = 1\<rparr>, entry = 7,
            slot_read = Some (0x40, 0)\<rparr>
   \<and> ck_bag_block_count gap_heap 0x40 = Inr 1"
  using next_reads_below_count [of gap_heap gap_bag "[0x40, 0x80, 0xC0]"
        "ck_bag_iterator_init gap_bag" 0]
    it_reach.reach_init [of gap_heap gap_bag]
  by (simp add: gap_heap_def gap_bag_def eval_defs)

lemma zero_chain_step:
  assumes "chain h (block it) bs" and "\<forall>b\<in>set bs. ck_bag_block_count h b = Inr 0"
  shows "\<exists>it'. ck_bag_next h it e = Inr \<lparr>ret = False, iter = it', entry = e, slot_read = None\<rparr>
           \<and> chain h (block it') (tl bs)"
proof (cases bs)
  case Nil
  with assms(1) show ?thesis by (simp add: ck_bag_next_def)
next
  case (Cons b bs')
  with assms(1) obtain blk where b: "block it = b" "b \<noteq> 0" "h b = Some blk"
    and rest: "chain h (ck_bag_block_next (blk_next blk)) bs'"
    by (auto split: option.splits)
  have cnt: "ck_bag_block_count h b = Inr 0" using assms(2) Cons by simp
  show ?thesis
  proof (cases bs')
    case Nil
    with rest have "ck_bag_block_next (blk_next blk) = 0" by simp
    then show ?thesis using b cnt Cons Nil by (simp add: ck_bag_next_def Let_def)
  next
    case (Cons b' bs'')
    with rest have q: "ck_bag_block_next (blk_next blk) = b'" "b' \<noteq> 0" by auto
    have "ck_bag_block_count h b' = Inr 0" using assms(2) \<open>bs = b # bs'\<close> Cons by simp
    then show ?thesis using b cnt q rest \<open>bs = b # bs'\<close>
      by (simp add: ck_bag_next_def Let_def)
  qed
qed

lemma zero_chain_after:
  assumes "chain h (block it) bs" and "\<forall>b\<in>set bs. ck_bag_block_count h b = Inr 0"
  shows "\<exists>it'. ck_bag_next_after h n it e =
            Inr \<lparr>ret = False, iter = it', entry = e, slot_read = None\<rparr>"
  using assms
proof (induction n arbitrary: it bs)
  case 0
  from zero_chain_step [OF 0(1,2), of e] show ?case by auto
next
  case (Suc n)
  from zero_chain_step [OF Suc.prems, of e] obtain it' where
    st: "ck_bag_next h it e = Inr \<lparr>ret = False, iter = it', entry = e, slot_read = None\<rparr>"
    and ch: "chain h (block it') (tl bs)" by blast
  have "\<forall>b\<in>set (tl bs). ck_bag_block_count h b = Inr 0"
    using Suc.prems(2) by (cases bs) auto
  from Suc.IH [OF ch this] show ?case using st by simp
qed

text \<open>
  Where a false return is final. A false return leaves the iterator at \<open>NULL\<close> or at a
  block whose count is zero. When every block from there to the end of the chain has count
  zero (none at all, when the iterator is at \<open>NULL\<close>), every later call on the unchanged
  store returns false, reads no slot and leaves \<open>*entry\<close> alone.
\<close>

theorem next_false_stays_false:
  assumes "ck_bag_next h it e = Inr r" and "\<not> ret r"
    and "chain h (block (iter r)) bs"
    and "\<forall>b\<in>set bs. ck_bag_block_count h b = Inr 0"
  shows "\<exists>it'. ck_bag_next_after h n (iter r) e' =
           Inr \<lparr>ret = False, iter = it', entry = e', slot_read = None\<rparr>"
  using zero_chain_after [OF assms(3,4)] .

theorem next_false_stays_false_witness:
  "ck_bag_next tail_heap \<lparr>block = 0x40, index = 1\<rparr> 5 =
     Inr \<lparr>ret = False, iter = \<lparr>block = 0x80, index = 1\<rparr>, entry = 5, slot_read = None\<rparr>
   \<and> chain tail_heap 0x80 [0x80]
   \<and> ck_bag_block_count tail_heap 0x80 = Inr 0
   \<and> (\<exists>it'. ck_bag_next_after tail_heap 2 \<lparr>block = 0x80, index = 1\<rparr> 6 =
           Inr \<lparr>ret = False, iter = it', entry = 6, slot_read = None\<rparr>)"
  using next_false_stays_false [of tail_heap "\<lparr>block = 0x40, index = 1\<rparr>" 5
      "\<lparr>ret = False, iter = \<lparr>block = 0x80, index = 1\<rparr>, entry = 5, slot_read = None\<rparr>"
      "[0x80]" 2 6]
  by (simp add: tail_heap_def eval_defs)

text \<open>
  A chain with an empty block in the middle arises from the mutator itself: with blocks of
  one entry and linear growth, three puts and the remove of the second value leave the
  chain \<open>0x40 \<rightarrow> 0x80 \<rightarrow> 0xC0\<close> with counts 1, 0, 1. An iterator started there returns true
  (\<open>0xC\<close>), false, true (\<open>0xA\<close>), false.
\<close>

lemma gap_chain_reached:
  "(case run (Map.empty, ck_bag_init \<lparr>info_max = 1, info_bytes = 64\<rparr> CK_BAG_ALLOCATE_LINEAR)
          gap_ops of
      Some (Inr ((h, bag), rs)) \<Rightarrow>
        head bag = 0x40
        \<and> map (ck_bag_block_count h) [0x40, 0x80, 0xC0] = [Inr 1, Inr 0, Inr 1]
        \<and> map (\<lambda>n. case ck_bag_next_after h n (ck_bag_iterator_init bag) 0 of
                       Inl f \<Rightarrow> None | Inr r \<Rightarrow> Some (ret r, entry r)) [0, 1, 2, 3]
            = [Some (True, 0xC), Some (False, 0xC), Some (True, 0xA), Some (False, 0xA)]
    | _ \<Rightarrow> False)"
  by code_simp

text \<open>
  Claim C2. Once \<open>ck_bag_next\<close> has returned false, every later call on the same iterator
  and the unchanged bag is to return false as well. The code breaks this where a block
  without live entries is followed by one with entries: the return of line 151 leaves the
  iterator on the empty block, and the next call walks on from there. On the three-block
  store, the iterator started at the head yields 7, then returns false at the empty middle
  block, and the call after that returns true with 9.
\<close>

theorem next_false_then_true:
  "ck_bag_next gap_heap (ck_bag_iterator_init gap_bag) 0 =
     Inr \<lparr>ret = True, iter = \<lparr>block = 0x40, index = 1\<rparr>, entry = 7,
          slot_read = Some (0x40, 0)\<rparr>
   \<and> ck_bag_next gap_heap \<lparr>block = 0x40, index = 1\<rparr> 7 =
     Inr \<lparr>ret = False, iter = \<lparr>block = 0x80, index = 1\<rparr>, entry = 7, slot_read = None\<rparr>
   \<and> ck_bag_next gap_heap \<lparr>block = 0x80, index = 1\<rparr> 7 =
     Inr \<lparr>ret = True, iter = \<lparr>block = 0xC0, index = 1\<rparr>, entry = 9,
          slot_read = Some (0xC0, 0)\<rparr>"
  by (simp add: gap_heap_def gap_bag_def eval_defs)

section \<open>Chains and availability lists in the store\<close>

lemma chain_unique: "chain h p xs \<Longrightarrow> chain h p ys \<Longrightarrow> xs = ys"
proof (induction xs arbitrary: p ys)
  case Nil
  then show ?case by (cases ys) auto
next
  case (Cons x xs)
  then show ?case by (cases ys) (auto split: option.splits)
qed

lemma chain_split:
  "chain h p bs \<Longrightarrow> b \<in> set bs \<Longrightarrow> \<exists>pre suf. bs = pre @ b # suf \<and> chain h b (b # suf)"
proof (induction bs arbitrary: p)
  case Nil
  then show ?case by simp
next
  case (Cons a bs)
  show ?case
  proof (cases "b = a")
    case True
    with Cons.prems(1) have "chain h b (b # bs)" by simp
    with True show ?thesis by blast
  next
    case False
    with Cons.prems obtain blk where "h a = Some blk"
      "chain h (ck_bag_block_next (blk_next blk)) bs" "b \<in> set bs"
      by (auto split: option.splits)
    from Cons.IH [OF this(2,3)] obtain pre suf where
      "bs = pre @ b # suf" "chain h b (b # suf)" by blast
    then have "a # bs = (a # pre) @ b # suf" by simp
    with \<open>chain h b (b # suf)\<close> show ?thesis by blast
  qed
qed

lemma chain_distinct: "chain h p bs \<Longrightarrow> distinct bs"
proof (induction bs arbitrary: p)
  case Nil
  then show ?case by simp
next
  case (Cons a bs)
  from Cons.prems obtain blk where a: "p = a" "h a = Some blk"
    and rest: "chain h (ck_bag_block_next (blk_next blk)) bs"
    by (auto split: option.splits)
  have "a \<notin> set bs"
  proof
    assume "a \<in> set bs"
    from chain_split [OF rest this] obtain pre suf where
      bs: "bs = pre @ a # suf" and ch: "chain h a (a # suf)" by blast
    from Cons.prems a have "chain h a (a # bs)" by simp
    from chain_unique [OF this ch] bs show False by simp
  qed
  with Cons.IH [OF rest] show ?case by simp
qed

lemma chain_cong:
  assumes "\<forall>b\<in>set bs. map_option blk_next (h' b) = map_option blk_next (h b)"
  shows "chain h' p bs = chain h p bs"
  using assms
proof (induction bs arbitrary: p)
  case Nil
  then show ?case by simp
next
  case (Cons a bs)
  then have a: "map_option blk_next (h' a) = map_option blk_next (h a)"
    and rest: "\<And>q. chain h' q bs = chain h q bs" by auto
  show ?case
  proof (cases "h a")
    case None
    with a show ?thesis by simp
  next
    case (Some blk)
    with a obtain blk' where "h' a = Some blk'" "blk_next blk' = blk_next blk" by auto
    with Some rest show ?thesis by simp
  qed
qed

lemma avail_list_cong:
  assumes "\<forall>b\<in>set bs. map_option avail_next (h' b) = map_option avail_next (h b)
                      \<and> map_option avail_prev (h' b) = map_option avail_prev (h b)"
  shows "avail_list h' prev p bs = avail_list h prev p bs"
  using assms
proof (induction bs arbitrary: p prev)
  case Nil
  then show ?case by simp
next
  case (Cons a bs)
  then have a: "map_option avail_next (h' a) = map_option avail_next (h a)"
      "map_option avail_prev (h' a) = map_option avail_prev (h a)"
    and rest: "\<And>q r. avail_list h' r q bs = avail_list h r q bs" by auto
  show ?case
  proof (cases "h a")
    case None
    with a show ?thesis by simp
  next
    case (Some blk)
    with a obtain blk' where "h' a = Some blk'" "avail_next blk' = avail_next blk"
      "avail_prev blk' = avail_prev blk" by auto
    with Some rest show ?thesis by simp
  qed
qed

lemma avail_list_mem:
  "avail_list h prev p bs \<Longrightarrow> b \<in> set bs \<Longrightarrow> b \<noteq> 0 \<and> h b \<noteq> None"
  by (induction bs arbitrary: p prev) (auto split: option.splits)

lemma avail_list_head: "avail_list h prev p bs \<Longrightarrow> p = (if bs = [] then 0 else hd bs)"
  by (cases bs) auto

lemma block_live_count_cong:
  "map_option blk_next (h' b) = map_option blk_next (h b) \<Longrightarrow>
     block_live_count h' b = block_live_count h b"
  by (cases "h b"; cases "h' b") (auto simp: block_live_count_def ck_bag_block_count_def)

lemma live_slots_cong:
  "map_option blk_next (h' b) = map_option blk_next (h b) \<Longrightarrow>
   map_option array (h' b) = map_option array (h b) \<Longrightarrow>
     live_slots h' b = live_slots h b"
  by (cases "h b"; cases "h' b")
    (auto simp: live_slots_def block_live_count_def ck_bag_block_count_def)

lemma block_ok_cong:
  "map_option blk_next (h' b) = map_option blk_next (h b) \<Longrightarrow>
   map_option array (h' b) = map_option array (h b) \<Longrightarrow>
     block_ok h' cap b = block_ok h cap b"
  by (cases "h b"; cases "h' b")
    (auto simp: block_ok_def block_live_count_def ck_bag_block_count_def)

section \<open>The availability list operations\<close>

lemma same_data_refl: "same_data h h"
  by (simp add: same_data_def)

lemma same_data_trans: "same_data h h1 \<Longrightarrow> same_data h1 h2 \<Longrightarrow> same_data h h2"
  by (simp add: same_data_def)

lemma same_data_dom: "same_data h h' \<Longrightarrow> (h' x = None) = (h x = None)"
  by (simp add: same_data_def) (metis option.map_disc_iff)

lemma same_data_upd:
  "h x = Some blk \<Longrightarrow> blk_next blk' = blk_next blk \<Longrightarrow> array blk' = array blk \<Longrightarrow>
     same_data h (h(x \<mapsto> blk'))"
  by (simp add: same_data_def)

lemma same_data_chain: "same_data h h' \<Longrightarrow> chain h' p bs = chain h p bs"
  by (rule chain_cong) (simp add: same_data_def)

lemma same_data_count: "same_data h h' \<Longrightarrow> block_live_count h' b = block_live_count h b"
  by (rule block_live_count_cong) (simp add: same_data_def)

lemma same_data_count_fun: "same_data h h' \<Longrightarrow> block_live_count h' = block_live_count h"
  by (rule ext) (rule same_data_count)

lemma same_data_live: "same_data h h' \<Longrightarrow> live_slots h' b = live_slots h b"
  by (rule live_slots_cong) (simp_all add: same_data_def)

lemma same_data_block_ok: "same_data h h' \<Longrightarrow> block_ok h' cap b = block_ok h cap b"
  by (rule block_ok_cong) (simp_all add: same_data_def)

lemma same_data_contents: "same_data h h' \<Longrightarrow> bag_contents h' bs = bag_contents h bs"
  by (simp add: bag_contents_def same_data_live)

lemma avail_list_snoc:
  assumes "avail_list h prev p avl" and "avl \<noteq> []" and "b \<notin> set avl" and "b \<noteq> 0"
    and "distinct avl" and "h (last avl) = Some tb"
  shows "avail_list
           (h(b \<mapsto> blk\<lparr>avail_next := 0, avail_prev := last avl\<rparr>,
              last avl \<mapsto> tb\<lparr>avail_next := b\<rparr>))
           prev p (avl @ [b])"
  using assms
proof (induction avl arbitrary: prev p)
  case Nil
  then show ?case by simp
next
  case (Cons a as)
  let ?h' = "h(b \<mapsto> blk\<lparr>avail_next := 0, avail_prev := last (a # as)\<rparr>,
               last (a # as) \<mapsto> tb\<lparr>avail_next := b\<rparr>)"
  from Cons.prems(1) obtain ba where a: "p = a" "a \<noteq> 0" "h a = Some ba"
    "avail_prev ba = prev" and rest: "avail_list h a (avail_next ba) as"
    by (auto split: option.splits)
  show ?case
  proof (cases "as = []")
    case True
    with Cons.prems(6) a have "tb = ba" by simp
    with True a Cons.prems(3,4) show ?thesis by simp
  next
    case False
    then have la: "last (a # as) = last as" by simp
    have "last as \<in> set as" using False by simp
    with Cons.prems(5) have neq: "a \<noteq> last as" by auto
    have "a \<noteq> b" using Cons.prems(3) by auto
    have p: "b \<notin> set as" "distinct as" "h (last as) = Some tb"
      using Cons.prems(3,5,6) la by auto
    have "avail_list (h(b \<mapsto> blk\<lparr>avail_next := 0, avail_prev := last as\<rparr>,
               last as \<mapsto> tb\<lparr>avail_next := b\<rparr>)) a (avail_next ba) (as @ [b])"
      by (rule Cons.IH [OF rest False p(1) Cons.prems(4) p(2,3)])
    moreover have "(h(b \<mapsto> blk\<lparr>avail_next := 0, avail_prev := last as\<rparr>,
               last as \<mapsto> tb\<lparr>avail_next := b\<rparr>)) a = Some ba"
      using a neq \<open>a \<noteq> b\<close> by simp
    ultimately show ?thesis unfolding la using a(1,2,4)
      by (simp only: append_Cons avail_list.simps option.case simp_thms)
  qed
qed

lemma push_avail_ok:
  assumes al: "avail_list h 0 (avail_head bag) avl"
    and tl: "avail_tail bag = (if avl = [] then 0 else last avl)"
    and d: "distinct avl" and nm: "b \<notin> set avl" and nz: "b \<noteq> 0" and hb: "h b = Some blk"
  shows "\<exists>h' hd'. push_avail (h, bag) b = Inr (h', bag\<lparr>avail_head := hd', avail_tail := b\<rparr>)
           \<and> avail_list h' 0 hd' (avl @ [b]) \<and> same_data h h'"
proof (cases "avl = []")
  case True
  with al tl have "avail_head bag = 0" "avail_tail bag = 0" by simp_all
  then have "push_avail (h, bag) b =
      Inr (h(b \<mapsto> blk\<lparr>avail_next := 0, avail_prev := 0\<rparr>), bag\<lparr>avail_head := b, avail_tail := b\<rparr>)"
    using hb by (simp add: push_avail_def)
  moreover have "avail_list (h(b \<mapsto> blk\<lparr>avail_next := 0, avail_prev := 0\<rparr>)) 0 b ([] @ [b])"
    using nz by simp
  moreover have "same_data h (h(b \<mapsto> blk\<lparr>avail_next := 0, avail_prev := 0\<rparr>))"
    using hb by (simp add: same_data_upd)
  ultimately show ?thesis using True by blast
next
  case False
  let ?t = "last avl"
  have tmem: "?t \<in> set avl" using False by simp
  from avail_list_mem [OF al tmem] obtain tb where t: "?t \<noteq> 0" "h ?t = Some tb" by auto
  have tb: "?t \<noteq> b" using tmem nm by auto
  let ?h1 = "h(b \<mapsto> blk\<lparr>avail_next := 0, avail_prev := ?t\<rparr>)"
  let ?h' = "?h1(?t \<mapsto> tb\<lparr>avail_next := b\<rparr>)"
  have "push_avail (h, bag) b = Inr (?h', bag\<lparr>avail_tail := b\<rparr>)"
    using hb tl False t tb by (simp add: push_avail_def Let_def)
  moreover have "bag\<lparr>avail_tail := b\<rparr> = bag\<lparr>avail_head := avail_head bag, avail_tail := b\<rparr>"
    by simp
  moreover have "avail_list ?h' 0 (avail_head bag) (avl @ [b])"
    by (rule avail_list_snoc [OF al False nm nz d t(2)])
  moreover have "same_data h ?h'"
  proof -
    have "same_data h ?h1" using hb by (simp add: same_data_upd)
    moreover have "same_data ?h1 ?h'" using t(2) tb by (simp add: same_data_upd)
    ultimately show ?thesis by (rule same_data_trans)
  qed
  ultimately show ?thesis by metis
qed

lemma retire_avail_head_ok:
  assumes al: "avail_list h 0 (avail_head bag) (b # rest)"
    and tl: "avail_tail bag = last (b # rest)"
    and d: "distinct (b # rest)"
  shows "\<exists>h' hd' tl'. retire_avail (h, bag) b = Inr (h', bag\<lparr>avail_head := hd', avail_tail := tl'\<rparr>)
           \<and> avail_list h' 0 hd' rest \<and> tl' = (if rest = [] then 0 else last rest)
           \<and> same_data h h'"
proof -
  from al obtain blk where b: "avail_head bag = b" "b \<noteq> 0" "h b = Some blk"
    "avail_prev blk = 0" and r: "avail_list h b (avail_next blk) rest"
    by (auto split: option.splits)
  show ?thesis
  proof (cases rest)
    case Nil
    with r have "avail_next blk = 0" by simp
    then have "retire_avail (h, bag) b = Inr (h, bag\<lparr>avail_head := 0, avail_tail := 0\<rparr>)"
      using b by (simp add: retire_avail_def)
    then show ?thesis using Nil same_data_refl by fastforce
  next
    case (Cons c rest')
    with r obtain nb where c: "avail_next blk = c" "c \<noteq> 0" "h c = Some nb"
      "avail_prev nb = b" and r': "avail_list h c (avail_next nb) rest'"
      by (auto split: option.splits)
    let ?h' = "h(c \<mapsto> nb\<lparr>avail_prev := 0\<rparr>)"
    have "retire_avail (h, bag) b = Inr (?h', bag\<lparr>avail_head := c\<rparr>)"
      using b c by (simp add: retire_avail_def)
    moreover have "bag\<lparr>avail_head := c\<rparr> = bag\<lparr>avail_head := c, avail_tail := last rest\<rparr>"
      using tl Cons by simp
    moreover have "avail_list ?h' 0 c rest"
    proof -
      have "c \<notin> set rest'" using d Cons by simp
      then have "avail_list ?h' c (avail_next nb) rest' = avail_list h c (avail_next nb) rest'"
        by (intro avail_list_cong) auto
      with r' c Cons show ?thesis by simp
    qed
    moreover have "same_data h ?h'" using c by (simp add: same_data_upd)
    ultimately show ?thesis using Cons by (metis list.distinct(1))
  qed
qed

section \<open>Updating one block\<close>

lemma count_store:
  "ck_bag_block_count (h(b \<mapsto> block_count_store blk c)) b = Inr c"
  using count_packed [OF next_top_clear, of "blk_next blk" c]
  by (simp add: ck_bag_block_count_def block_count_store_def)

lemma next_store:
  "ck_bag_block_next (blk_next (block_count_store blk c)) = ck_bag_block_next (blk_next blk)"
  using next_packed [OF next_top_clear, of "blk_next blk" "ucast c"]
  by (simp add: block_count_store_def)

lemma live_count_store: "block_live_count (h(b \<mapsto> block_count_store blk c)) b = unat c"
  by (simp add: block_live_count_def count_store)

lemma store_fields:
  "avail_next (block_count_store blk c) = avail_next blk"
  "avail_prev (block_count_store blk c) = avail_prev blk"
  "array (block_count_store blk c) = array blk"
  by (simp_all add: block_count_store_def)

lemma chain_cong_next:
  assumes "\<forall>b\<in>set bs. map_option (\<lambda>x. ck_bag_block_next (blk_next x)) (h' b)
                      = map_option (\<lambda>x. ck_bag_block_next (blk_next x)) (h b)"
  shows "chain h' p bs = chain h p bs"
  using assms
proof (induction bs arbitrary: p)
  case Nil
  then show ?case by simp
next
  case (Cons a bs)
  then have a: "map_option (\<lambda>x. ck_bag_block_next (blk_next x)) (h' a)
                  = map_option (\<lambda>x. ck_bag_block_next (blk_next x)) (h a)"
    and rest: "\<And>q. chain h' q bs = chain h q bs" by auto
  show ?case
  proof (cases "h a")
    case None
    with a show ?thesis by simp
  next
    case (Some blk)
    with a obtain blk' where "h' a = Some blk'"
      "ck_bag_block_next (blk_next blk') = ck_bag_block_next (blk_next blk)" by auto
    with Some rest show ?thesis by simp
  qed
qed

lemma upd_chain:
  assumes "h b = Some blk"
    and "ck_bag_block_next (blk_next blk') = ck_bag_block_next (blk_next blk)"
  shows "chain (h(b \<mapsto> blk')) p bs = chain h p bs"
  by (rule chain_cong_next) (use assms in auto)

lemma upd_avail_list:
  assumes "h b = Some blk" and "avail_next blk' = avail_next blk"
    and "avail_prev blk' = avail_prev blk"
  shows "avail_list (h(b \<mapsto> blk')) prev p as = avail_list h prev p as"
  by (rule avail_list_cong) (use assms in auto)

lemma upd_other_count:
  "x \<noteq> b \<Longrightarrow> block_live_count (h(b \<mapsto> blk')) x = block_live_count h x"
  by (simp add: block_live_count_def ck_bag_block_count_def)

lemma upd_other_live:
  "x \<noteq> b \<Longrightarrow> live_slots (h(b \<mapsto> blk')) x = live_slots h x"
  by (cases "h x") (simp_all add: live_slots_def upd_other_count)

lemma upd_other_ok:
  "x \<noteq> b \<Longrightarrow> block_ok (h(b \<mapsto> blk')) cap x = block_ok h cap x"
  by (cases "h x") (simp_all add: block_ok_def upd_other_count)

lemma sum_list_map_change:
  fixes f g :: "'a \<Rightarrow> 'b::comm_monoid_add"
  assumes "distinct bs" and "b \<in> set bs" and "\<forall>x\<in>set bs. x \<noteq> b \<longrightarrow> g x = f x"
  shows "sum_list (map g bs) + f b = sum_list (map f bs) + g b"
  using assms
proof (induction bs)
  case Nil
  then show ?case by simp
next
  case (Cons a bs)
  show ?case
  proof (cases "a = b")
    case True
    with Cons.prems have "\<forall>x\<in>set bs. g x = f x" by auto
    then have "sum_list (map g bs) = sum_list (map f bs)" by (simp cong: map_cong)
    with True show ?thesis by (simp add: ac_simps)
  next
    case False
    with Cons.prems have "sum_list (map g bs) + f b = sum_list (map f bs) + g b"
      and "g a = f a" using Cons.IH by auto
    then show ?thesis by (simp add: ac_simps)
  qed
qed

lemma ucast_eq_unat:
  fixes c :: "16 word" and m :: "64 word"
  shows "(ucast c = m) = (unat c = unat m)"
proof
  assume "ucast c = m"
  then have "unat m = unat (ucast c :: 64 word)" by simp
  also have "\<dots> = unat c" by (simp add: unsigned_ucast_eq take_bit_nat_eq_self unsigned_less [of c, simplified] less_trans [OF unsigned_less [of c, simplified]])
  finally show "unat c = unat m" by simp
next
  assume "unat c = unat m"
  moreover have "unat (ucast c :: 64 word) = unat c" by (simp add: unsigned_ucast_eq take_bit_nat_eq_self unsigned_less [of c, simplified] less_trans [OF unsigned_less [of c, simplified]])
  ultimately have "unat (ucast c :: 64 word) = unat m" by simp
  then show "ucast c = m" by (simp add: word_unat_eq_iff)
qed

lemma unat_count_succ:
  fixes c :: "16 word"
  assumes "unat c < cap" and "cap \<le> 65535"
  shows "unat (c + 1) = unat c + 1"
proof -
  have "unat c + 1 < 2 ^ 16" using assms by simp
  then show ?thesis by (simp add: unat_word_ariths)
qed

lemma unat_count_pred:
  fixes c :: "16 word"
  assumes "0 < unat c"
  shows "unat (c - 1) = unat c - 1"
proof -
  have "1 \<le> c" using assms by (simp add: word_le_nat_alt)
  then show ?thesis by (simp add: unat_sub)
qed

section \<open>The insertion step preserves the invariant\<close>

lemma bag_invI:
  assumes "chain h (head bag) bs"
    and "\<forall>b\<in>set bs. block_ok h (unat (info_max (info bag))) b"
    and "avail_list h 0 (avail_head bag) avl"
    and "avail_tail bag = (if avl = [] then 0 else last avl)"
    and "distinct avl"
    and "set avl = {b \<in> set bs. block_live_count h b < unat (info_max (info bag))}"
    and "n_entries bag = of_nat (sum_list (map (block_live_count h) bs))"
    and "n_blocks bag = of_nat (length bs)"
    and "0 < unat (info_max (info bag))" and "unat (info_max (info bag)) \<le> 65535"
  shows "bag_inv (h, bag) bs avl"
  using assms by (simp add: bag_inv_def)

lemma bag_invD:
  assumes "bag_inv (h, bag) bs avl"
  shows "chain h (head bag) bs"
    and "\<forall>b\<in>set bs. block_ok h (unat (info_max (info bag))) b"
    and "avail_list h 0 (avail_head bag) avl"
    and "avail_tail bag = (if avl = [] then 0 else last avl)"
    and "distinct avl"
    and "set avl = {b \<in> set bs. block_live_count h b < unat (info_max (info bag))}"
    and "n_entries bag = of_nat (sum_list (map (block_live_count h) bs))"
    and "n_blocks bag = of_nat (length bs)"
    and "0 < unat (info_max (info bag))" and "unat (info_max (info bag)) \<le> 65535"
  using assms by (simp_all add: bag_inv_def)

lemma avail_set_step:
  assumes "A = {x \<in> B. f x < (cap::nat)}" and "\<And>x. x \<noteq> b \<Longrightarrow> g x = f x"
  shows "{x \<in> B. g x < cap} = (A - {b}) \<union> (if b \<in> B \<and> g b < cap then {b} else {})"
proof (rule set_eqI)
  fix x
  show "x \<in> {x \<in> B. g x < cap}
      \<longleftrightarrow> x \<in> (A - {b}) \<union> (if b \<in> B \<and> g b < cap then {b} else {})"
  proof (cases "x = b")
    case True
    then show ?thesis by simp
  next
    case False
    then show ?thesis using assms(2) [OF False] by (simp add: assms(1))
  qed
qed

lemma put_entry_ok:
  assumes inv: "bag_inv (h, bag) bs avl" and nz: "avail_head bag \<noteq> 0"
  shows "\<exists>h' bag' avl'. put_entry (h, bag) e = Inr (h', bag') \<and> bag_inv (h', bag') bs avl'
           \<and> bag_contents h' bs = add_mset e (bag_contents h bs)
           \<and> (\<forall>x. (h' x = None) = (h x = None))
           \<and> info bag' = info bag \<and> alloc_strat bag' = alloc_strat bag"
proof -
  let ?cap = "unat (info_max (info bag))"
  let ?b = "avail_head bag"
  note I = bag_invD [OF inv]
  from I(3) nz obtain rest where avl: "avl = ?b # rest" by (cases avl) auto
  have bmem: "?b \<in> set bs" and lt: "block_live_count h ?b < ?cap" using I(6) avl by auto
  from I(2) bmem obtain blk where hb: "h ?b = Some blk" and len: "length (array blk) = ?cap"
    and top: "?b AND CK_BAG_BLOCK_ENTRIES_MASK = 0"
    by (auto simp: block_ok_def split: option.splits)
  define c :: "16 word" where "c = ucast (drop_bit 48 (blk_next blk))"
  have cnt: "ck_bag_block_count h ?b = Inr c"
    using hb by (simp add: ck_bag_block_count_def c_def)
  have uc: "unat c < ?cap" using lt cnt by (simp add: block_live_count_def)
  have uc1: "unat (c + 1) = unat c + 1" by (rule unat_count_succ [OF uc I(10)])
  define blk' where "blk' = block_count_store (blk\<lparr>array := (array blk)[unat c := e]\<rparr>) (c + 1)"
  define h1 where "h1 = h(?b \<mapsto> blk')"
  have nx: "ck_bag_block_next (blk_next blk') = ck_bag_block_next (blk_next blk)"
    using next_store [of "blk\<lparr>array := (array blk)[unat c := e]\<rparr>" "c + 1"]
    by (simp add: blk'_def)
  have fl: "avail_next blk' = avail_next blk" "avail_prev blk' = avail_prev blk"
    and arr: "array blk' = (array blk)[unat c := e]"
    by (simp_all add: blk'_def store_fields)
  have ch1: "chain h1 (head bag) bs"
    using I(1) upd_chain [of h ?b blk blk', OF hb nx] by (simp add: h1_def)
  have al1: "avail_list h1 0 ?b avl"
    using I(3) upd_avail_list [of h ?b blk blk', OF hb fl] by (simp add: h1_def)
  have cnt1: "block_live_count h1 ?b = unat c + 1"
    by (simp add: h1_def blk'_def live_count_store uc1)
  have cnto: "\<And>x. x \<noteq> ?b \<Longrightarrow> block_live_count h1 x = block_live_count h x"
    by (simp add: h1_def upd_other_count)
  have h1b: "h1 ?b = Some blk'" by (simp add: h1_def)
  have ok1: "\<forall>x\<in>set bs. block_ok h1 ?cap x"
  proof
    fix x assume x: "x \<in> set bs"
    show "block_ok h1 ?cap x"
    proof (cases "x = ?b")
      case True
      then show ?thesis using top cnt1 uc len h1b arr by (simp add: block_ok_def)
    next
      case False
      then show ?thesis using I(2) x by (simp add: h1_def upd_other_ok)
    qed
  qed
  have live0: "live_slots h ?b = take (unat c) (array blk)"
    using hb cnt by (simp add: live_slots_def block_live_count_def)
  have live1: "live_slots h1 ?b = live_slots h ?b @ [e]"
  proof -
    have "live_slots h1 ?b = take (Suc (unat c)) ((array blk)[unat c := e])"
      using h1b cnt1 arr by (simp add: live_slots_def)
    also have "\<dots> = take (unat c) ((array blk)[unat c := e]) @ [(array blk)[unat c := e] ! unat c]"
      using uc len by (simp add: take_Suc_conv_app_nth)
    also have "\<dots> = take (unat c) (array blk) @ [e]" using uc len by simp
    finally show ?thesis by (simp add: live0)
  qed
  have liveo: "\<And>x. x \<noteq> ?b \<Longrightarrow> live_slots h1 x = live_slots h x"
    by (simp add: h1_def upd_other_live)
  have dbs: "distinct bs" by (rule chain_distinct [OF I(1)])
  have sum1: "sum_list (map (block_live_count h1) bs) = sum_list (map (block_live_count h) bs) + 1"
  proof -
    have "sum_list (map (block_live_count h1) bs) + block_live_count h ?b
        = sum_list (map (block_live_count h) bs) + block_live_count h1 ?b"
      by (rule sum_list_map_change [OF dbs bmem]) (simp add: cnto)
    moreover have "block_live_count h ?b = unat c" using cnt by (simp add: block_live_count_def)
    ultimately show ?thesis using cnt1 by simp
  qed
  have cont1: "bag_contents h1 bs = add_mset e (bag_contents h bs)"
  proof -
    have "sum_list (map (\<lambda>x. mset (live_slots h1 x)) bs) + mset (live_slots h ?b)
        = sum_list (map (\<lambda>x. mset (live_slots h x)) bs) + mset (live_slots h1 ?b)"
      by (rule sum_list_map_change [OF dbs bmem]) (simp add: liveo)
    then show ?thesis by (simp add: bag_contents_def live1)
  qed
  have dom1: "\<And>x. (h1 x = None) = (h x = None)" using hb by (simp add: h1_def)
  have ne1: "n_entries bag + 1 = of_nat (sum_list (map (block_live_count h1) bs))"
    using I(7) sum1 by simp
  show ?thesis
  proof (cases "unat c + 1 = ?cap")
    case True
    have full: "ucast (c + 1) = info_max (info bag)" using True uc1 by (simp add: ucast_eq_unat)
    have "avail_list h1 0 (avail_head bag) (?b # rest)" using al1 avl by simp
    moreover have "avail_tail bag = last (?b # rest)" using I(4) avl by simp
    moreover have "distinct (?b # rest)" using I(5) avl by simp
    ultimately obtain h' hd' tl' where
      r: "retire_avail (h1, bag) ?b = Inr (h', bag\<lparr>avail_head := hd', avail_tail := tl'\<rparr>)"
      and al': "avail_list h' 0 hd' rest" and tl': "tl' = (if rest = [] then 0 else last rest)"
      and sd: "same_data h1 h'"
      using retire_avail_head_ok [of h1 bag ?b rest] by blast
    let ?bag' = "bag\<lparr>avail_head := hd', avail_tail := tl', n_entries := n_entries bag + 1\<rparr>"
    have pe: "put_entry (h, bag) e = Inr (h', ?bag')"
      using hb cnt uc len full r by (simp add: put_entry_def Let_def h1_def blk'_def)
    have set': "set rest = {x \<in> set bs. block_live_count h' x < ?cap}"
    proof -
      have "?b \<notin> set rest" using I(5) avl by simp
      moreover have "set avl = insert ?b (set rest)" using avl by simp
      moreover have "\<not> block_live_count h1 ?b < ?cap" using cnt1 True by simp
      ultimately show ?thesis
        using avail_set_step [OF I(6), of ?b "block_live_count h1"] cnto
        by (simp add: same_data_count [OF sd])
    qed
    have "bag_inv (h', ?bag') bs rest"
    proof (rule bag_invI)
      show "chain h' (head ?bag') bs" using ch1 by (simp add: same_data_chain [OF sd])
      show "\<forall>b\<in>set bs. block_ok h' (unat (info_max (info ?bag'))) b"
        using ok1 by (simp add: same_data_block_ok [OF sd])
      show "avail_list h' 0 (avail_head ?bag') rest" using al' by simp
      show "avail_tail ?bag' = (if rest = [] then 0 else last rest)" using tl' by simp
      show "distinct rest" using I(5) avl by simp
      show "set rest = {b \<in> set bs. block_live_count h' b < unat (info_max (info ?bag'))}"
        using set' by simp
      show "n_entries ?bag' = of_nat (sum_list (map (block_live_count h') bs))"
        using ne1 by (simp add: same_data_count_fun [OF sd])
      show "n_blocks ?bag' = of_nat (length bs)" using I(8) by simp
      show "0 < unat (info_max (info ?bag'))" using I(9) by simp
      show "unat (info_max (info ?bag')) \<le> 65535" using I(10) by simp
    qed
    moreover have "bag_contents h' bs = add_mset e (bag_contents h bs)"
      using cont1 by (simp add: same_data_contents [OF sd])
    moreover have "\<forall>x. (h' x = None) = (h x = None)"
      using dom1 by (simp add: same_data_dom [OF sd])
    ultimately show ?thesis using pe by fastforce
  next
    case False
    have nfull: "ucast (c + 1) \<noteq> info_max (info bag)"
      using False uc1 by (simp add: ucast_eq_unat)
    let ?bag' = "bag\<lparr>n_entries := n_entries bag + 1\<rparr>"
    have pe: "put_entry (h, bag) e = Inr (h1, ?bag')"
      using hb cnt uc len nfull by (simp add: put_entry_def Let_def h1_def blk'_def)
    have set': "set avl = {x \<in> set bs. block_live_count h1 x < ?cap}"
    proof -
      have "block_live_count h1 ?b < ?cap" using cnt1 uc False by simp
      moreover have "?b \<in> set avl" using avl by simp
      ultimately show ?thesis
        using avail_set_step [OF I(6), of ?b "block_live_count h1"] cnto bmem
        by (simp add: insert_absorb)
    qed
    have "bag_inv (h1, ?bag') bs avl"
    proof (rule bag_invI)
      show "chain h1 (head ?bag') bs" using ch1 by simp
      show "\<forall>b\<in>set bs. block_ok h1 (unat (info_max (info ?bag'))) b" using ok1 by simp
      show "avail_list h1 0 (avail_head ?bag') avl" using al1 by simp
      show "avail_tail ?bag' = (if avl = [] then 0 else last avl)" using I(4) by simp
      show "distinct avl" by (rule I(5))
      show "set avl = {b \<in> set bs. block_live_count h1 b < unat (info_max (info ?bag'))}"
        using set' by simp
      show "n_entries ?bag' = of_nat (sum_list (map (block_live_count h1) bs))"
        using ne1 by simp
      show "n_blocks ?bag' = of_nat (length bs)" using I(8) by simp
      show "0 < unat (info_max (info ?bag'))" using I(9) by simp
      show "unat (info_max (info ?bag')) \<le> 65535" using I(10) by simp
    qed
    then show ?thesis using pe cont1 dom1 by fastforce
  qed
qed

section \<open>Growth preserves the invariant\<close>

lemma next_of_clear: "p AND CK_BAG_BLOCK_ENTRIES_MASK = 0 \<Longrightarrow> ck_bag_block_next p = p"
  using next_packed [of p 0] by simp

lemma count_of_clear:
  "p AND CK_BAG_BLOCK_ENTRIES_MASK = 0 \<Longrightarrow> (ucast (drop_bit 48 p) :: 16 word) = 0"
  using count_packed [of p 0] by simp

lemma bag_inv_head_clear:
  assumes "bag_inv (h, bag) bs avl"
  shows "head bag AND CK_BAG_BLOCK_ENTRIES_MASK = 0"
proof -
  note I = bag_invD [OF assms]
  from chain_head [OF I(1)] show ?thesis
  proof
    assume "head bag = 0"
    then show ?thesis by simp
  next
    assume "head bag \<in> set bs"
    with I(2) show ?thesis by (simp add: block_ok_def)
  qed
qed

lemma link_block_ok:
  assumes inv: "bag_inv (h, bag) bs avl"
    and fresh: "h a = None" and nz: "a \<noteq> 0" and top: "a AND CK_BAG_BLOCK_ENTRIES_MASK = 0"
  shows "\<exists>h' bag'. link_block (h, bag) a = Inr (h', bag')
           \<and> bag_inv (h', bag') (a # bs) (avl @ [a])
           \<and> bag_contents h' (a # bs) = bag_contents h bs
           \<and> (\<forall>x. (h' x = None) = (h x = None \<and> x \<noteq> a))
           \<and> info bag' = info bag \<and> alloc_strat bag' = alloc_strat bag"
proof -
  let ?cap = "unat (info_max (info bag))"
  note I = bag_invD [OF inv]
  define nb where "nb = \<lparr>blk_next = head bag, avail_next = 0, avail_prev = 0,
                          array = replicate ?cap (0 :: uintptr)\<rparr>"
  define h0 where "h0 = h(a \<mapsto> nb)"
  define bag0 where "bag0 = bag\<lparr>head := a, n_blocks := n_blocks bag + 1\<rparr>"
  have hc: "head bag AND CK_BAG_BLOCK_ENTRIES_MASK = 0" by (rule bag_inv_head_clear [OF inv])
  have abs: "a \<notin> set bs"
  proof
    assume "a \<in> set bs"
    from chain_member [OF I(1) this] fresh show False by auto
  qed
  have aavl: "a \<notin> set avl"
  proof
    assume "a \<in> set avl"
    from avail_list_mem [OF I(3) this] fresh show False by simp
  qed
  have h0a: "h0 a = Some nb" by (simp add: h0_def)
  have cnt0: "block_live_count h0 a = 0"
    using count_of_clear [OF hc]
    by (simp add: block_live_count_def ck_bag_block_count_def h0_def nb_def)
  have cnto: "\<And>x. x \<noteq> a \<Longrightarrow> block_live_count h0 x = block_live_count h x"
    by (simp add: h0_def upd_other_count)
  have ch0: "chain h0 a (a # bs)"
  proof -
    have "chain h0 (head bag) bs = chain h (head bag) bs"
      by (rule chain_cong) (use abs in \<open>auto simp: h0_def\<close>)
    then show ?thesis using I(1) nz h0a next_of_clear [OF hc] by (simp add: nb_def)
  qed
  have ok0: "\<forall>x\<in>set (a # bs). block_ok h0 ?cap x"
  proof
    fix x assume x: "x \<in> set (a # bs)"
    show "block_ok h0 ?cap x"
    proof (cases "x = a")
      case True
      then show ?thesis using top h0a cnt0 by (simp add: block_ok_def nb_def)
    next
      case False
      then show ?thesis using I(2) x by (simp add: h0_def upd_other_ok)
    qed
  qed
  have al0: "avail_list h0 0 (avail_head bag0) avl"
  proof -
    have "avail_list h0 0 (avail_head bag) avl = avail_list h 0 (avail_head bag) avl"
      by (rule avail_list_cong) (use aavl in \<open>auto simp: h0_def\<close>)
    then show ?thesis using I(3) by (simp add: bag0_def)
  qed
  have tl0: "avail_tail bag0 = (if avl = [] then 0 else last avl)"
    using I(4) by (simp add: bag0_def)
  from push_avail_ok [OF al0 tl0 I(5) aavl nz h0a] obtain h' hd' where
    pa: "push_avail (h0, bag0) a = Inr (h', bag0\<lparr>avail_head := hd', avail_tail := a\<rparr>)"
    and al': "avail_list h' 0 hd' (avl @ [a])" and sd: "same_data h0 h'" by blast
  let ?bag' = "bag0\<lparr>avail_head := hd', avail_tail := a\<rparr>"
  have lb: "link_block (h, bag) a = Inr (h', ?bag')"
    using pa by (simp add: link_block_def h0_def nb_def bag0_def)
  have cf: "block_live_count h' = block_live_count h0" by (rule same_data_count_fun [OF sd])
  have sumeq: "sum_list (map (block_live_count h0) bs) = sum_list (map (block_live_count h) bs)"
  proof -
    have "\<And>x. x \<in> set bs \<Longrightarrow> block_live_count h0 x = block_live_count h x"
      using abs cnto by metis
    then show ?thesis by (simp cong: map_cong)
  qed
  have "bag_inv (h', ?bag') (a # bs) (avl @ [a])"
  proof (rule bag_invI)
    show "chain h' (head ?bag') (a # bs)"
      using ch0 same_data_chain [OF sd, of a "a # bs"] by (simp add: bag0_def)
    show "\<forall>b\<in>set (a # bs). block_ok h' (unat (info_max (info ?bag'))) b"
      using ok0 by (simp add: same_data_block_ok [OF sd] bag0_def)
    show "avail_list h' 0 (avail_head ?bag') (avl @ [a])" using al' by simp
    show "avail_tail ?bag' = (if avl @ [a] = [] then 0 else last (avl @ [a]))" by simp
    show "distinct (avl @ [a])" using I(5) aavl by simp
    show "set (avl @ [a]) =
        {b \<in> set (a # bs). block_live_count h' b < unat (info_max (info ?bag'))}"
    proof -
      have capeq: "unat (info_max (info ?bag')) = ?cap" by (simp add: bag0_def)
      have old: "{x \<in> set bs. block_live_count h0 x < ?cap} = set avl"
        using avail_set_step [OF I(6), of a "block_live_count h0"] cnto abs aavl by simp
      have "{b \<in> set (a # bs). block_live_count h0 b < ?cap}
          = insert a {x \<in> set bs. block_live_count h0 x < ?cap}"
      proof (rule set_eqI)
        fix x
        show "x \<in> {b \<in> set (a # bs). block_live_count h0 b < ?cap}
            \<longleftrightarrow> x \<in> insert a {x \<in> set bs. block_live_count h0 x < ?cap}"
          using cnt0 I(9) by (cases "x = a") simp_all
      qed
      then show ?thesis unfolding capeq cf old by simp
    qed
    show "n_entries ?bag' = of_nat (sum_list (map (block_live_count h') (a # bs)))"
      using I(7) cnt0 sumeq by (simp add: cf bag0_def)
    show "n_blocks ?bag' = of_nat (length (a # bs))" using I(8) by (simp add: bag0_def)
    show "0 < unat (info_max (info ?bag'))" using I(9) by (simp add: bag0_def)
    show "unat (info_max (info ?bag')) \<le> 65535" using I(10) by (simp add: bag0_def)
  qed
  moreover have "bag_contents h' (a # bs) = bag_contents h bs"
  proof -
    have "live_slots h0 a = []" using h0a cnt0 by (simp add: live_slots_def)
    moreover have "sum_list (map (\<lambda>b. mset (live_slots h0 b)) bs)
        = sum_list (map (\<lambda>b. mset (live_slots h b)) bs)"
    proof -
      have "\<And>x. x \<in> set bs \<Longrightarrow> live_slots h0 x = live_slots h x"
        using abs upd_other_live [of _ a h nb] unfolding h0_def by metis
      then show ?thesis by (simp cong: map_cong)
    qed
    ultimately have "bag_contents h0 (a # bs) = bag_contents h bs"
      by (simp add: bag_contents_def)
    then show ?thesis by (simp add: same_data_contents [OF sd])
  qed
  moreover have "\<forall>x. (h' x = None) = (h x = None \<and> x \<noteq> a)"
    by (auto simp: same_data_dom [OF sd] h0_def)
  ultimately show ?thesis using lb by (simp add: bag0_def)
qed

lemma link_blocks_ok:
  assumes "bag_inv (h, bag) bs avl"
    and "distinct as"
    and "\<forall>a\<in>set as. a \<noteq> 0 \<and> h a = None \<and> a AND CK_BAG_BLOCK_ENTRIES_MASK = 0"
  shows "\<exists>h' bag'. link_blocks (h, bag) as = Inr (h', bag')
           \<and> bag_inv (h', bag') (rev as @ bs) (avl @ as)
           \<and> bag_contents h' (rev as @ bs) = bag_contents h bs
           \<and> (\<forall>x. (h' x = None) = (h x = None \<and> x \<notin> set as))
           \<and> info bag' = info bag \<and> alloc_strat bag' = alloc_strat bag"
  using assms
proof (induction as arbitrary: h bag bs avl)
  case Nil
  then show ?case by simp
next
  case (Cons a as)
  from Cons.prems have a: "h a = None" "a \<noteq> 0" "a AND CK_BAG_BLOCK_ENTRIES_MASK = 0" by auto
  from link_block_ok [OF Cons.prems(1) a] obtain h1 bag1 where
    lb: "link_block (h, bag) a = Inr (h1, bag1)"
    and inv1: "bag_inv (h1, bag1) (a # bs) (avl @ [a])"
    and c1: "bag_contents h1 (a # bs) = bag_contents h bs"
    and d1: "\<forall>x. (h1 x = None) = (h x = None \<and> x \<noteq> a)"
    and i1: "info bag1 = info bag" "alloc_strat bag1 = alloc_strat bag" by blast
  have dist: "distinct as" using Cons.prems(2) by simp
  have fresh1: "\<forall>x\<in>set as. x \<noteq> 0 \<and> h1 x = None \<and> x AND CK_BAG_BLOCK_ENTRIES_MASK = 0"
    using Cons.prems(2,3) d1 by auto
  from Cons.IH [OF inv1 dist fresh1] obtain h' bag' where
    r: "link_blocks (h1, bag1) as = Inr (h', bag')"
    and inv': "bag_inv (h', bag') (rev as @ a # bs) ((avl @ [a]) @ as)"
    and c': "bag_contents h' (rev as @ a # bs) = bag_contents h1 (a # bs)"
    and d': "\<forall>x. (h' x = None) = (h1 x = None \<and> x \<notin> set as)"
    and i': "info bag' = info bag1" "alloc_strat bag' = alloc_strat bag1" by blast
  have "link_blocks (h, bag) (a # as) = Inr (h', bag')" using lb r by simp
  moreover have "bag_inv (h', bag') (rev (a # as) @ bs) (avl @ a # as)" using inv' by simp
  moreover have "bag_contents h' (rev (a # as) @ bs) = bag_contents h bs" using c' c1 by simp
  moreover have "\<forall>x. (h' x = None) = (h x = None \<and> x \<notin> set (a # as))"
    using d' d1 by auto
  ultimately show ?case using i' i1 by simp
qed

section \<open>Put preserves the invariant\<close>

lemma growth_blocks_pos: "0 < growth_blocks bag"
  by (cases "alloc_strat bag") (auto simp: growth_blocks_def unat_gt_0)

lemma distinct_take_nonzero:
  assumes "distinct (filter (\<lambda>a. a \<noteq> (0::uintptr)) xs)" and "0 \<notin> set (take n xs)"
  shows "distinct (take n xs)"
proof -
  have "filter (\<lambda>a. a \<noteq> 0) (take n xs @ drop n xs) = filter (\<lambda>a. a \<noteq> 0) xs" by simp
  then have "distinct (filter (\<lambda>a. a \<noteq> 0) (take n xs) @ filter (\<lambda>a. a \<noteq> 0) (drop n xs))"
    using assms(1) by (simp only: filter_append)
  then have "distinct (filter (\<lambda>a. a \<noteq> 0) (take n xs))" by simp
  moreover have "filter (\<lambda>a. a \<noteq> 0) (take n xs) = take n xs"
    using assms(2) by (intro filter_True) auto
  ultimately show ?thesis by simp
qed

lemma put_ok:
  assumes inv: "bag_inv (h, bag) bs avl" and fr: "answers_fresh h answers"
  shows "\<exists>r h' bag' bs' avl'. ck_bag_put_spmc (h, bag) e answers = Inr (r, h', bag')
           \<and> bag_inv (h', bag') bs' avl'
           \<and> bag_contents h' bs' = (if r then add_mset e (bag_contents h bs) else bag_contents h bs)
           \<and> (\<forall>x. h' x \<noteq> None \<longrightarrow> h x \<noteq> None \<or> x \<in> set answers)
           \<and> info bag' = info bag \<and> alloc_strat bag' = alloc_strat bag
           \<and> (r = (avail_head bag \<noteq> 0 \<or>
                   (growth_blocks bag \<le> length answers
                    \<and> 0 \<notin> set (take (growth_blocks bag) answers))))"
proof (cases "avail_head bag \<noteq> 0")
  case True
  from put_entry_ok [OF inv True, of e] obtain h' bag' avl' where
    pe: "put_entry (h, bag) e = Inr (h', bag')" and inv': "bag_inv (h', bag') bs avl'"
    and c: "bag_contents h' bs = add_mset e (bag_contents h bs)"
    and d: "\<forall>x. (h' x = None) = (h x = None)"
    and i: "info bag' = info bag" "alloc_strat bag' = alloc_strat bag" by blast
  have "ck_bag_put_spmc (h, bag) e answers = Inr (True, h', bag')"
    using True pe by (simp add: ck_bag_put_spmc_def)
  then show ?thesis
    by (rule_tac x = True in exI, rule_tac x = h' in exI, rule_tac x = bag' in exI,
        rule_tac x = bs in exI, rule_tac x = avl' in exI)
      (use inv' c d i True in simp)
next
  case False
  then have ah: "avail_head bag = 0" by simp
  let ?n = "growth_blocks bag"
  show ?thesis
  proof (cases "length answers < ?n \<or> 0 \<in> set (take ?n answers)")
    case True
    then have "ck_bag_put_spmc (h, bag) e answers = Inr (False, h, bag)"
      using ah by (simp add: ck_bag_put_spmc_def ck_bag_grow_def)
    moreover have "\<not> (growth_blocks bag \<le> length answers
        \<and> 0 \<notin> set (take (growth_blocks bag) answers))" using True by auto
    ultimately show ?thesis
      by (rule_tac x = False in exI, rule_tac x = h in exI, rule_tac x = bag in exI,
          rule_tac x = bs in exI, rule_tac x = avl in exI)
        (use inv ah in simp)
  next
    case ok: False
    let ?as = "take ?n answers"
    have len: "?n \<le> length answers" and noz: "0 \<notin> set ?as" using ok by auto
    have sub: "set ?as \<subseteq> set answers" by (rule set_take_subset)
    have dist: "distinct ?as"
      using fr noz by (intro distinct_take_nonzero) (simp add: answers_fresh_def)
    have fresh: "\<forall>a\<in>set ?as. a \<noteq> 0 \<and> h a = None \<and> a AND CK_BAG_BLOCK_ENTRIES_MASK = 0"
    proof
      fix a assume a: "a \<in> set ?as"
      then have "a \<noteq> 0" using noz by auto
      moreover have "a \<in> set answers" using a sub by auto
      ultimately show "a \<noteq> 0 \<and> h a = None \<and> a AND CK_BAG_BLOCK_ENTRIES_MASK = 0"
        using fr by (simp add: answers_fresh_def)
    qed
    from link_blocks_ok [OF inv dist fresh] obtain h1 bag1 where
      lb: "link_blocks (h, bag) ?as = Inr (h1, bag1)"
      and inv1: "bag_inv (h1, bag1) (rev ?as @ bs) (avl @ ?as)"
      and c1: "bag_contents h1 (rev ?as @ bs) = bag_contents h bs"
      and d1: "\<forall>x. (h1 x = None) = (h x = None \<and> x \<notin> set ?as)"
      and i1: "info bag1 = info bag" "alloc_strat bag1 = alloc_strat bag" by blast
    have gr: "ck_bag_grow (h, bag) answers = Inr (True, h1, bag1)"
      using ok lb by (simp add: ck_bag_grow_def)
    have "?as \<noteq> []" using growth_blocks_pos [of bag] len by auto
    then have ne: "avl @ ?as \<noteq> []" by simp
    have hd: "avail_head bag1 = hd (avl @ ?as)"
      using avail_list_head [OF bag_invD(3) [OF inv1]] ne by metis
    have "hd (avl @ ?as) \<in> set (avl @ ?as)" using \<open>avl @ ?as \<noteq> []\<close> by (rule hd_in_set)
    from avail_list_mem [OF bag_invD(3) [OF inv1] this] hd have nz1: "avail_head bag1 \<noteq> 0"
      by simp
    from put_entry_ok [OF inv1 nz1, of e] obtain h' bag' avl' where
      pe: "put_entry (h1, bag1) e = Inr (h', bag')"
      and inv': "bag_inv (h', bag') (rev ?as @ bs) avl'"
      and c: "bag_contents h' (rev ?as @ bs) = add_mset e (bag_contents h1 (rev ?as @ bs))"
      and d: "\<forall>x. (h' x = None) = (h1 x = None)"
      and i: "info bag' = info bag1" "alloc_strat bag' = alloc_strat bag1" by blast
    have "ck_bag_put_spmc (h, bag) e answers = Inr (True, h', bag')"
      using ah gr pe by (simp add: ck_bag_put_spmc_def)
    moreover have "bag_contents h' (rev ?as @ bs) = add_mset e (bag_contents h bs)"
      using c c1 by simp
    moreover have "\<forall>x. h' x \<noteq> None \<longrightarrow> h x \<noteq> None \<or> x \<in> set answers"
      using d d1 sub by auto
    moreover have "info bag' = info bag" "alloc_strat bag' = alloc_strat bag"
      using i i1 by simp_all
    ultimately show ?thesis
      by (rule_tac x = True in exI, rule_tac x = h' in exI, rule_tac x = bag' in exI,
          rule_tac x = "rev ?as @ bs" in exI, rule_tac x = avl' in exI)
        (use inv' len noz in simp)
  qed
qed

section \<open>Remove preserves the invariant\<close>

lemma scan_slots_ok:
  "n \<le> length arr \<Longrightarrow>
     \<exists>r. scan_slots arr n e i = Inr r \<and>
       (case r of None \<Rightarrow> e \<notin> set (take n arr)
        | Some j \<Rightarrow> i \<le> j \<and> j - i < n \<and> arr ! (j - i) = e)"
proof (induction arr n e i rule: scan_slots.induct)
  case (1 arr e i)
  then show ?case by simp
next
  case (2 n e i)
  then show ?case by simp
next
  case (3 x xs n e i)
  show ?case
  proof (cases "x = e")
    case True
    then show ?thesis by simp
  next
    case False
    from 3 False obtain r where r: "scan_slots xs n e (Suc i) = Inr r"
      and p: "case r of None \<Rightarrow> e \<notin> set (take n xs)
              | Some j \<Rightarrow> Suc i \<le> j \<and> j - Suc i < n \<and> xs ! (j - Suc i) = e"
      by auto
    show ?thesis
    proof (cases r)
      case None
      with r p False show ?thesis by auto
    next
      case (Some j)
      with p have j: "Suc i \<le> j" "j - Suc i < n" "xs ! (j - Suc i) = e" by auto
      then have "j - i = Suc (j - Suc i)" by simp
      with j r Some False show ?thesis by simp
    qed
  qed
qed

lemma block_ok_live:
  assumes "block_ok h cap b"
  shows "\<exists>blk. h b = Some blk \<and> length (array blk) = cap \<and> block_live_count h b \<le> cap
           \<and> ck_bag_block_count h b = Inr (of_nat (block_live_count h b))
           \<and> live_slots h b = take (block_live_count h b) (array blk)
           \<and> length (live_slots h b) = block_live_count h b"
proof -
  from assms obtain blk where b: "h b = Some blk" "length (array blk) = cap"
    "block_live_count h b \<le> cap"
    by (auto simp: block_ok_def split: option.splits)
  have "ck_bag_block_count h b = Inr (of_nat (block_live_count h b))"
    using b(1) by (simp add: block_live_count_def ck_bag_block_count_def)
  then show ?thesis using b by (simp add: live_slots_def)
qed

lemma find_entry_ok:
  assumes "chain h p bs" and "\<forall>b\<in>set bs. block_ok h cap b"
  shows "\<exists>res. find_entry h p e = Some (Inr res) \<and>
           (case res of None \<Rightarrow> e \<notin># bag_contents h bs
            | Some (b, i) \<Rightarrow> b \<in> set bs \<and> i < block_live_count h b
                  \<and> (\<exists>blk. h b = Some blk \<and> array blk ! i = e))"
  using assms
proof (induction bs arbitrary: p)
  case Nil
  then have "p = 0" by simp
  then show ?case by (subst find_entry.simps) (simp add: bag_contents_def)
next
  case (Cons a bs)
  from Cons.prems(1) obtain blk where a: "p = a" "a \<noteq> 0" "h a = Some blk"
    and rest: "chain h (ck_bag_block_next (blk_next blk)) bs"
    by (auto split: option.splits)
  from Cons.prems(2) have oka: "block_ok h cap a" and okr: "\<forall>b\<in>set bs. block_ok h cap b"
    by simp_all
  from block_ok_live [OF oka] a(3) have len: "length (array blk) = cap"
    and le: "block_live_count h a \<le> cap"
    and live: "live_slots h a = take (block_live_count h a) (array blk)" by auto
  define c :: "16 word" where "c = ucast (drop_bit 48 (blk_next blk))"
  have cnt: "ck_bag_block_count h a = Inr c"
    using a(3) by (simp add: ck_bag_block_count_def c_def)
  have uc: "unat c = block_live_count h a" using cnt by (simp add: block_live_count_def)
  have "unat c \<le> length (array blk)" using uc le len by simp
  from scan_slots_ok [OF this, of e 0] obtain r where
    r: "scan_slots (array blk) (unat c) e 0 = Inr r"
    and pr: "case r of None \<Rightarrow> e \<notin> set (take (unat c) (array blk))
             | Some j \<Rightarrow> 0 \<le> j \<and> j - 0 < unat c \<and> array blk ! (j - 0) = e" by blast
  show ?case
  proof (cases r)
    case None
    from Cons.IH [OF rest okr] obtain res where
      f: "find_entry h (ck_bag_block_next (blk_next blk)) e = Some (Inr res)"
      and pres: "case res of None \<Rightarrow> e \<notin># bag_contents h bs
            | Some (b, i) \<Rightarrow> b \<in> set bs \<and> i < block_live_count h b
                  \<and> (\<exists>blk. h b = Some blk \<and> array blk ! i = e)" by blast
    have fe: "find_entry h p e = Some (Inr res)"
      using a cnt r None f by (subst find_entry.simps) simp
    have notin: "e \<notin> set (live_slots h a)" using pr None live uc by simp
    have "case res of None \<Rightarrow> e \<notin># bag_contents h (a # bs)
            | Some (b, i) \<Rightarrow> b \<in> set (a # bs) \<and> i < block_live_count h b
                  \<and> (\<exists>blk. h b = Some blk \<and> array blk ! i = e)"
      using pres notin by (cases res) (auto simp: bag_contents_def)
    with fe show ?thesis by blast
  next
    case (Some j)
    have fe: "find_entry h p e = Some (Inr (Some (a, j)))"
      using a cnt r Some by (subst find_entry.simps) simp
    moreover have "j < block_live_count h a" "array blk ! j = e" using pr Some uc by simp_all
    ultimately show ?thesis using a(3) by simp
  qed
qed

lemma mset_take_remove:
  assumes "i < n" and "n \<le> length arr"
  shows "add_mset (arr ! i)
           (mset (take (n - 1) (if i \<noteq> n - 1 then arr[i := arr ! (n - 1)] else arr)))
         = mset (take n arr)"
proof -
  have n: "n = Suc (n - 1)" using assms(1) by simp
  have lt: "n - 1 < length arr" using assms by simp
  have tk: "take n arr = take (n - 1) arr @ [arr ! (n - 1)]"
    using take_Suc_conv_app_nth [OF lt] n by simp
  show ?thesis
  proof (cases "i = n - 1")
    case True
    then show ?thesis using tk by simp
  next
    case False
    then have i: "i < n - 1" using assms(1) by simp
    then have il: "i < length (take (n - 1) arr)" using lt by simp
    have "take (n - 1) (arr[i := arr ! (n - 1)]) = (take (n - 1) arr)[i := arr ! (n - 1)]"
      by (simp add: take_update_swap)
    then have "mset (take (n - 1) (arr[i := arr ! (n - 1)]))
        = add_mset (arr ! (n - 1)) (mset (take (n - 1) arr) - {#take (n - 1) arr ! i#})"
      using il by (simp add: mset_update)
    moreover have "take (n - 1) arr ! i = arr ! i" using i by simp
    moreover have "arr ! i \<in># mset (take (n - 1) arr)"
      using il \<open>take (n - 1) arr ! i = arr ! i\<close> by (metis nth_mem_mset)
    ultimately show ?thesis using False tk by simp
  qed
qed

lemma take_compact:
  assumes "i < n" and "n \<le> length A"
  shows "take (n - 1) (if i \<noteq> n - 1 then A[i := A ! (n - 1)] else A)
         = butlast ((take n A)[i := last (take n A)])"
proof -
  have ne: "take n A \<noteq> []" using assms by auto
  have len: "length (take n A) = n" using assms by simp
  have lst: "last (take n A) = A ! (n - 1)"
    using assms by (simp add: last_conv_nth [OF ne] len)
  have "butlast ((take n A)[i := A ! (n - 1)]) = take (n - 1) ((take n A)[i := A ! (n - 1)])"
    using assms(2) by (simp add: butlast_conv_take min_absorb2)
  also have "\<dots> = take (n - 1) (if i \<noteq> n - 1 then A[i := A ! (n - 1)] else A)"
  proof (cases "i = n - 1")
    case True
    then show ?thesis by (simp add: min_def)
  next
    case False
    then show ?thesis by (simp add: take_update_swap min_def)
  qed
  finally show ?thesis by (simp add: lst)
qed

lemma remove_at_ok:
  assumes inv: "bag_inv (h, bag) bs avl" and bmem: "b \<in> set bs"
    and i: "i < block_live_count h b" and hb: "h b = Some blk" and e: "array blk ! i = e"
  shows "\<exists>h' bag' avl'. remove_at (h, bag) b i = Inr (h', bag') \<and> bag_inv (h', bag') bs avl'
           \<and> add_mset e (bag_contents h' bs) = bag_contents h bs
           \<and> (\<forall>x. (h' x = None) = (h x = None))
           \<and> info bag' = info bag \<and> alloc_strat bag' = alloc_strat bag
           \<and> live_slots h' b = butlast ((live_slots h b)[i := last (live_slots h b)])
           \<and> (\<forall>x. x \<noteq> b \<longrightarrow> live_slots h' x = live_slots h x)"
proof -
  let ?cap = "unat (info_max (info bag))"
  note I = bag_invD [OF inv]
  from I(2) bmem have okb: "block_ok h ?cap b" by simp
  from block_ok_live [OF okb] hb have len: "length (array blk) = ?cap"
    and le: "block_live_count h b \<le> ?cap"
    and live0: "live_slots h b = take (block_live_count h b) (array blk)" by auto
  have top: "b AND CK_BAG_BLOCK_ENTRIES_MASK = 0" using okb by (simp add: block_ok_def)
  define c :: "16 word" where "c = ucast (drop_bit 48 (blk_next blk))"
  have cnt: "ck_bag_block_count h b = Inr c"
    using hb by (simp add: ck_bag_block_count_def c_def)
  have uc: "unat c = block_live_count h b" using cnt by (simp add: block_live_count_def)
  have pos: "0 < unat c" using i uc by simp
  have ucp: "unat (c - 1) = unat c - 1" by (rule unat_count_pred [OF pos])
  have lastlt: "unat c - 1 < length (array blk)" using pos uc le len by simp
  define arr where "arr = (if i \<noteq> unat c - 1 then (array blk)[i := array blk ! (unat c - 1)]
                           else array blk)"
  define blk' where "blk' = block_count_store (blk\<lparr>array := arr\<rparr>) (c - 1)"
  define h1 where "h1 = h(b \<mapsto> blk')"
  have nx: "ck_bag_block_next (blk_next blk') = ck_bag_block_next (blk_next blk)"
    using next_store [of "blk\<lparr>array := arr\<rparr>" "c - 1"] by (simp add: blk'_def)
  have fl: "avail_next blk' = avail_next blk" "avail_prev blk' = avail_prev blk"
    and arr': "array blk' = arr"
    by (simp_all add: blk'_def store_fields)
  have larr: "length arr = ?cap" using len by (simp add: arr_def)
  have ch1: "chain h1 (head bag) bs"
    using I(1) upd_chain [of h b blk blk', OF hb nx] by (simp add: h1_def)
  have al1: "avail_list h1 0 (avail_head bag) avl"
    using I(3) upd_avail_list [of h b blk blk', OF hb fl] by (simp add: h1_def)
  have cnt1: "block_live_count h1 b = unat c - 1"
    by (simp add: h1_def blk'_def live_count_store ucp)
  have cnto: "\<And>x. x \<noteq> b \<Longrightarrow> block_live_count h1 x = block_live_count h x"
    by (simp add: h1_def upd_other_count)
  have h1b: "h1 b = Some blk'" by (simp add: h1_def)
  have ok1: "\<forall>x\<in>set bs. block_ok h1 ?cap x"
  proof
    fix x assume x: "x \<in> set bs"
    show "block_ok h1 ?cap x"
    proof (cases "x = b")
      case True
      then show ?thesis using top cnt1 uc le larr h1b arr' by (simp add: block_ok_def)
    next
      case False
      then show ?thesis using I(2) x by (simp add: h1_def upd_other_ok)
    qed
  qed
  have live1: "add_mset e (mset (live_slots h1 b)) = mset (live_slots h b)"
  proof -
    have "live_slots h1 b = take (unat c - 1) arr"
      using h1b cnt1 arr' by (simp add: live_slots_def)
    moreover have "add_mset (array blk ! i) (mset (take (unat c - 1) arr))
          = mset (take (unat c) (array blk))"
      unfolding arr_def using i uc le len by (intro mset_take_remove) simp_all
    ultimately show ?thesis using e live0 uc by simp
  qed
  have liveo: "\<And>x. x \<noteq> b \<Longrightarrow> live_slots h1 x = live_slots h x"
    by (simp add: h1_def upd_other_live)
  have lv: "live_slots h1 b = butlast ((live_slots h b)[i := last (live_slots h b)])"
  proof -
    have "live_slots h1 b = take (unat c - 1) arr"
      using h1b cnt1 arr' by (simp add: live_slots_def)
    also have "\<dots> = butlast ((take (unat c) (array blk))[i := last (take (unat c) (array blk))])"
      unfolding arr_def using i uc le len by (intro take_compact) simp_all
    finally show ?thesis using live0 uc by simp
  qed
  have dbs: "distinct bs" by (rule chain_distinct [OF I(1)])
  have sum1: "sum_list (map (block_live_count h1) bs) + 1 = sum_list (map (block_live_count h) bs)"
  proof -
    have "sum_list (map (block_live_count h1) bs) + block_live_count h b
        = sum_list (map (block_live_count h) bs) + block_live_count h1 b"
      by (rule sum_list_map_change [OF dbs bmem]) (simp add: cnto)
    then show ?thesis using cnt1 uc pos by simp
  qed
  have cont1: "add_mset e (bag_contents h1 bs) = bag_contents h bs"
  proof -
    have "sum_list (map (\<lambda>x. mset (live_slots h1 x)) bs) + mset (live_slots h b)
        = sum_list (map (\<lambda>x. mset (live_slots h x)) bs) + mset (live_slots h1 b)"
      by (rule sum_list_map_change [OF dbs bmem]) (simp add: liveo)
    then have "sum_list (map (\<lambda>x. mset (live_slots h1 x)) bs) + add_mset e (mset (live_slots h1 b))
        = sum_list (map (\<lambda>x. mset (live_slots h x)) bs) + mset (live_slots h1 b)"
      by (simp only: live1)
    then show ?thesis by (simp add: bag_contents_def)
  qed
  have dom1: "\<And>x. (h1 x = None) = (h x = None)" using hb by (simp add: h1_def)
  have ne1: "n_entries bag - 1 = of_nat (sum_list (map (block_live_count h1) bs))"
  proof -
    have "n_entries bag = of_nat (sum_list (map (block_live_count h1) bs) + 1)"
      using I(7) sum1 by simp
    then show ?thesis by simp
  qed
  show ?thesis
  proof (cases "unat c = ?cap")
    case True
    have full: "ucast c = info_max (info bag)" using True by (simp add: ucast_eq_unat)
    have bavl: "b \<notin> set avl" using I(6) uc True by simp
    have bnz: "b \<noteq> 0" using chain_member [OF I(1) bmem] by simp
    from push_avail_ok [OF al1 I(4) I(5) bavl bnz h1b] obtain h' hd' where
      pa: "push_avail (h1, bag) b = Inr (h', bag\<lparr>avail_head := hd', avail_tail := b\<rparr>)"
      and al': "avail_list h' 0 hd' (avl @ [b])" and sd: "same_data h1 h'" by blast
    let ?bag' = "bag\<lparr>avail_head := hd', avail_tail := b, n_entries := n_entries bag - 1\<rparr>"
    have ra: "remove_at (h, bag) b i = Inr (h', ?bag')"
      using hb cnt lastlt full pa
      by (simp add: remove_at_def Let_def h1_def blk'_def arr_def)
    have set': "set (avl @ [b]) = {x \<in> set bs. block_live_count h' x < ?cap}"
    proof -
      have "block_live_count h1 b < ?cap" using cnt1 True pos by simp
      then show ?thesis
        using avail_set_step [OF I(6), of b "block_live_count h1"] cnto bmem bavl
        by (simp add: same_data_count [OF sd])
    qed
    have "bag_inv (h', ?bag') bs (avl @ [b])"
    proof (rule bag_invI)
      show "chain h' (head ?bag') bs" using ch1 by (simp add: same_data_chain [OF sd])
      show "\<forall>b\<in>set bs. block_ok h' (unat (info_max (info ?bag'))) b"
        using ok1 by (simp add: same_data_block_ok [OF sd])
      show "avail_list h' 0 (avail_head ?bag') (avl @ [b])" using al' by simp
      show "avail_tail ?bag' = (if avl @ [b] = [] then 0 else last (avl @ [b]))" by simp
      show "distinct (avl @ [b])" using I(5) bavl by simp
      show "set (avl @ [b]) = {b \<in> set bs. block_live_count h' b < unat (info_max (info ?bag'))}"
        using set' by simp
      show "n_entries ?bag' = of_nat (sum_list (map (block_live_count h') bs))"
        using ne1 by (simp add: same_data_count_fun [OF sd])
      show "n_blocks ?bag' = of_nat (length bs)" using I(8) by simp
      show "0 < unat (info_max (info ?bag'))" using I(9) by simp
      show "unat (info_max (info ?bag')) \<le> 65535" using I(10) by simp
    qed
    moreover have "add_mset e (bag_contents h' bs) = bag_contents h bs"
      using cont1 by (simp add: same_data_contents [OF sd])
    moreover have "\<forall>x. (h' x = None) = (h x = None)"
      using dom1 by (simp add: same_data_dom [OF sd])
    moreover have "live_slots h' b = butlast ((live_slots h b)[i := last (live_slots h b)])"
      using lv by (simp add: same_data_live [OF sd])
    moreover have "\<forall>x. x \<noteq> b \<longrightarrow> live_slots h' x = live_slots h x"
      using liveo by (simp add: same_data_live [OF sd])
    ultimately show ?thesis
      by (rule_tac x = h' in exI, rule_tac x = ?bag' in exI, rule_tac x = "avl @ [b]" in exI)
        (use ra in simp)
  next
    case False
    have nfull: "ucast c \<noteq> info_max (info bag)" using False by (simp add: ucast_eq_unat)
    let ?bag' = "bag\<lparr>n_entries := n_entries bag - 1\<rparr>"
    have ra: "remove_at (h, bag) b i = Inr (h1, ?bag')"
      using hb cnt lastlt nfull by (simp add: remove_at_def Let_def h1_def blk'_def arr_def)
    have set': "set avl = {x \<in> set bs. block_live_count h1 x < ?cap}"
    proof -
      have "block_live_count h b < ?cap" using False uc le by simp
      then have "b \<in> set avl" using I(6) bmem by simp
      moreover have "block_live_count h1 b < ?cap" using cnt1 uc le pos by simp
      ultimately show ?thesis
        using avail_set_step [OF I(6), of b "block_live_count h1"] cnto bmem
        by (simp add: insert_absorb)
    qed
    have "bag_inv (h1, ?bag') bs avl"
    proof (rule bag_invI)
      show "chain h1 (head ?bag') bs" using ch1 by simp
      show "\<forall>b\<in>set bs. block_ok h1 (unat (info_max (info ?bag'))) b" using ok1 by simp
      show "avail_list h1 0 (avail_head ?bag') avl" using al1 by simp
      show "avail_tail ?bag' = (if avl = [] then 0 else last avl)" using I(4) by simp
      show "distinct avl" by (rule I(5))
      show "set avl = {b \<in> set bs. block_live_count h1 b < unat (info_max (info ?bag'))}"
        using set' by simp
      show "n_entries ?bag' = of_nat (sum_list (map (block_live_count h1) bs))"
        using ne1 by simp
      show "n_blocks ?bag' = of_nat (length bs)" using I(8) by simp
      show "0 < unat (info_max (info ?bag'))" using I(9) by simp
      show "unat (info_max (info ?bag')) \<le> 65535" using I(10) by simp
    qed
    then show ?thesis
      by (rule_tac x = h1 in exI, rule_tac x = ?bag' in exI, rule_tac x = avl in exI)
        (use ra cont1 dom1 lv liveo in simp)
  qed
qed

lemma remove_ok:
  assumes inv: "bag_inv (h, bag) bs avl"
  shows "\<exists>r h' bag' avl'. ck_bag_remove_spmc (h, bag) e = Some (Inr (r, h', bag'))
           \<and> bag_inv (h', bag') bs avl'
           \<and> r = (e \<in># bag_contents h bs)
           \<and> bag_contents h' bs = (if r then bag_contents h bs - {#e#} else bag_contents h bs)
           \<and> (\<forall>x. (h' x = None) = (h x = None))
           \<and> info bag' = info bag \<and> alloc_strat bag' = alloc_strat bag
           \<and> (if r
               then \<exists>b i. b \<in> set bs \<and> i < length (live_slots h b) \<and> live_slots h b ! i = e
                      \<and> live_slots h' b = butlast ((live_slots h b)[i := last (live_slots h b)])
                      \<and> (\<forall>x. x \<noteq> b \<longrightarrow> live_slots h' x = live_slots h x)
               else h' = h \<and> bag' = bag)"
proof -
  note I = bag_invD [OF inv]
  from find_entry_ok [OF I(1,2), of e] obtain res where
    f: "find_entry h (head bag) e = Some (Inr res)"
    and p: "case res of None \<Rightarrow> e \<notin># bag_contents h bs
            | Some (b, i) \<Rightarrow> b \<in> set bs \<and> i < block_live_count h b
                  \<and> (\<exists>blk. h b = Some blk \<and> array blk ! i = e)" by blast
  show ?thesis
  proof (cases res)
    case None
    then have "ck_bag_remove_spmc (h, bag) e = Some (Inr (False, h, bag))"
      using f by (simp add: ck_bag_remove_spmc_def)
    moreover have "e \<notin># bag_contents h bs" using p None by simp
    ultimately show ?thesis
      by (rule_tac x = False in exI, rule_tac x = h in exI, rule_tac x = bag in exI,
          rule_tac x = avl in exI)
        (use inv in simp)
  next
    case (Some bi)
    obtain b i where bi: "bi = (b, i)" by (cases bi)
    with p Some obtain blk where b: "b \<in> set bs" "i < block_live_count h b"
      "h b = Some blk" "array blk ! i = e" by auto
    from remove_at_ok [OF inv b] obtain h' bag' avl' where
      ra: "remove_at (h, bag) b i = Inr (h', bag')" and inv': "bag_inv (h', bag') bs avl'"
      and c: "add_mset e (bag_contents h' bs) = bag_contents h bs"
      and d: "\<forall>x. (h' x = None) = (h x = None)"
      and i': "info bag' = info bag" "alloc_strat bag' = alloc_strat bag"
      and lv: "live_slots h' b = butlast ((live_slots h b)[i := last (live_slots h b)])"
      and lo: "\<forall>x. x \<noteq> b \<longrightarrow> live_slots h' x = live_slots h x" by blast
    from block_ok_live [of h "unat (info_max (info bag))" b] I(2) b(1,3)
    have lb: "live_slots h b = take (block_live_count h b) (array blk)"
      and ll: "length (live_slots h b) = block_live_count h b" by auto
    have "live_slots h b ! i = e" using lb b(2,4) by simp
    with b(1,2) ll lv lo
    have cmp: "\<exists>b i. b \<in> set bs \<and> i < length (live_slots h b) \<and> live_slots h b ! i = e
                      \<and> live_slots h' b = butlast ((live_slots h b)[i := last (live_slots h b)])
                      \<and> (\<forall>x. x \<noteq> b \<longrightarrow> live_slots h' x = live_slots h x)"
      by (intro exI [of _ b] exI [of _ i]) simp
    have "ck_bag_remove_spmc (h, bag) e = Some (Inr (True, h', bag'))"
      using f Some bi ra by (simp add: ck_bag_remove_spmc_def)
    moreover have "e \<in># bag_contents h bs" using c by (metis union_single_eq_member)
    moreover have "bag_contents h' bs = bag_contents h bs - {#e#}"
      using c by (metis add_mset_remove_trivial)
    ultimately show ?thesis
      by (rule_tac x = True in exI, rule_tac x = h' in exI, rule_tac x = bag' in exI,
          rule_tac x = avl' in exI)
        (use inv' d i' cmp in simp)
  qed
qed

section \<open>Sequences of puts and removes\<close>

lemma size_contents:
  assumes "\<forall>b\<in>set bs. block_ok h cap b"
  shows "size (bag_contents h bs) = sum_list (map (block_live_count h) bs)"
  using assms
proof (induction bs)
  case Nil
  then show ?case by (simp add: bag_contents_def)
next
  case (Cons a bs)
  then have "block_ok h cap a" and IH: "size (bag_contents h bs) = sum_list (map (block_live_count h) bs)"
    by simp_all
  from block_ok_live [OF this(1)] have "length (live_slots h a) = block_live_count h a" by blast
  then show ?case using IH by (simp add: bag_contents_def)
qed

lemma bag_inv_init:
  assumes "0 < unat (info_max geometry)" and "unat (info_max geometry) \<le> 65535"
  shows "bag_inv (h, ck_bag_init geometry strat) [] []"
  using assms by (simp add: bag_inv_def ck_bag_init_def)

lemma exec_op_ok:
  assumes inv: "bag_inv (h, bag) bs avl"
    and fr: "case x of Put e answers \<Rightarrow> answers_fresh h answers | Remove e \<Rightarrow> True"
  shows "\<exists>r h' bag' bs' avl'. exec_op (h, bag) x = Some (Inr (r, h', bag'))
           \<and> bag_inv (h', bag') bs' avl'
           \<and> bag_contents h' bs' = contents_after (bag_contents h bs) [x] [r]
           \<and> size (bag_contents h' bs') + removes_ok [x] [r]
               = size (bag_contents h bs) + puts_ok [x] [r]
           \<and> info bag' = info bag \<and> alloc_strat bag' = alloc_strat bag"
proof (cases x)
  case (Put e answers)
  with fr have "answers_fresh h answers" by simp
  from put_ok [OF inv this, of e] obtain r h' bag' bs' avl' where
    p: "ck_bag_put_spmc (h, bag) e answers = Inr (r, h', bag')"
    "bag_inv (h', bag') bs' avl'"
    "bag_contents h' bs' = (if r then add_mset e (bag_contents h bs) else bag_contents h bs)"
    "info bag' = info bag" "alloc_strat bag' = alloc_strat bag" by blast
  show ?thesis
    by (rule_tac x = r in exI, rule_tac x = h' in exI, rule_tac x = bag' in exI,
        rule_tac x = bs' in exI, rule_tac x = avl' in exI)
      (use p Put in simp)
next
  case (Remove e)
  from remove_ok [OF inv, of e] obtain r h' bag' avl' where
    p: "ck_bag_remove_spmc (h, bag) e = Some (Inr (r, h', bag'))"
    "bag_inv (h', bag') bs avl'" "r = (e \<in># bag_contents h bs)"
    "bag_contents h' bs = (if r then bag_contents h bs - {#e#} else bag_contents h bs)"
    "info bag' = info bag" "alloc_strat bag' = alloc_strat bag" by blast
  have "size (bag_contents h' bs) + (if r then 1 else 0) = size (bag_contents h bs)"
    using p(3,4) by (auto simp: size_Diff_singleton) (metis Suc_pred nonempty_has_size empty_iff set_mset_empty)
  then show ?thesis
    by (rule_tac x = r in exI, rule_tac x = h' in exI, rule_tac x = bag' in exI,
        rule_tac x = bs in exI, rule_tac x = avl' in exI)
      (use p Remove in simp)
qed

lemma contents_after_step:
  "length rs = length xs \<Longrightarrow>
     contents_after M (x # xs) (r # rs) = contents_after (contents_after M [x] [r]) xs rs"
  by (cases x) simp_all

lemma puts_ok_step: "puts_ok (x # xs) (r # rs) = puts_ok [x] [r] + puts_ok xs rs"
  by (cases x) simp_all

lemma removes_ok_step: "removes_ok (x # xs) (r # rs) = removes_ok [x] [r] + removes_ok xs rs"
  by (cases x) simp_all

lemma run_ok:
  assumes "bag_inv (h, bag) bs avl" and "allocator_ok (h, bag) ops"
  shows "\<exists>h' bag' bs' avl' rs. run (h, bag) ops = Some (Inr ((h', bag'), rs))
           \<and> length rs = length ops
           \<and> bag_inv (h', bag') bs' avl'
           \<and> bag_contents h' bs' = contents_after (bag_contents h bs) ops rs
           \<and> size (bag_contents h' bs') + removes_ok ops rs
               = size (bag_contents h bs) + puts_ok ops rs
           \<and> info bag' = info bag \<and> alloc_strat bag' = alloc_strat bag"
  using assms
proof (induction ops arbitrary: h bag bs avl)
  case Nil
  show ?case
    by (rule_tac x = h in exI, rule_tac x = bag in exI, rule_tac x = bs in exI,
        rule_tac x = avl in exI, rule_tac x = "[]" in exI)
      (use Nil in simp)
next
  case (Cons x xs)
  from Cons.prems(2) have fr: "case x of Put e answers \<Rightarrow> answers_fresh h answers | Remove e \<Rightarrow> True"
    by (cases x) simp_all
  from exec_op_ok [OF Cons.prems(1) fr] obtain r h1 bag1 bs1 avl1 where
    ex: "exec_op (h, bag) x = Some (Inr (r, h1, bag1))"
    and inv1: "bag_inv (h1, bag1) bs1 avl1"
    and c1: "bag_contents h1 bs1 = contents_after (bag_contents h bs) [x] [r]"
    and s1: "size (bag_contents h1 bs1) + removes_ok [x] [r]
               = size (bag_contents h bs) + puts_ok [x] [r]"
    and i1: "info bag1 = info bag" "alloc_strat bag1 = alloc_strat bag" by blast
  from Cons.prems(2) ex have al1: "allocator_ok (h1, bag1) xs" by simp
  from Cons.IH [OF inv1 al1] obtain h' bag' bs' avl' rs where
    rn: "run (h1, bag1) xs = Some (Inr ((h', bag'), rs))" and len: "length rs = length xs"
    and inv': "bag_inv (h', bag') bs' avl'"
    and c': "bag_contents h' bs' = contents_after (bag_contents h1 bs1) xs rs"
    and s': "size (bag_contents h' bs') + removes_ok xs rs
               = size (bag_contents h1 bs1) + puts_ok xs rs"
    and i': "info bag' = info bag1" "alloc_strat bag' = alloc_strat bag1" by blast
  have "run (h, bag) (x # xs) = Some (Inr ((h', bag'), r # rs))" using ex rn by simp
  moreover have "bag_contents h' bs' = contents_after (bag_contents h bs) (x # xs) (r # rs)"
    using c' c1 by (simp add: contents_after_step [OF len])
  moreover have "size (bag_contents h' bs') + removes_ok (x # xs) (r # rs)
               = size (bag_contents h bs) + puts_ok (x # xs) (r # rs)"
    using s' s1 by (simp add: puts_ok_step [of x xs] removes_ok_step [of x xs])
  moreover have "info bag' = info bag" "alloc_strat bag' = alloc_strat bag"
    using i' i1 by simp_all
  ultimately show ?case
    by (rule_tac x = h' in exI, rule_tac x = bag' in exI, rule_tac x = bs' in exI,
        rule_tac x = avl' in exI, rule_tac x = "r # rs" in exI)
      (use len inv' in simp)
qed

section \<open>Set preserves the invariant\<close>

lemma set_ok:
  assumes inv: "bag_inv (h, bag) bs avl"
  shows "\<exists>r h'. ck_bag_set_spmc (h, bag) old new = Some (Inr (r, h', bag))
           \<and> bag_inv (h', bag) bs avl
           \<and> (\<forall>x. (h' x = None) = (h x = None))"
proof -
  let ?cap = "unat (info_max (info bag))"
  note I = bag_invD [OF inv]
  from find_entry_ok [OF I(1,2), of old] obtain res where
    f: "find_entry h (head bag) old = Some (Inr res)"
    and p: "case res of None \<Rightarrow> old \<notin># bag_contents h bs
            | Some (b, i) \<Rightarrow> b \<in> set bs \<and> i < block_live_count h b
                  \<and> (\<exists>blk. h b = Some blk \<and> array blk ! i = old)" by blast
  show ?thesis
  proof (cases res)
    case None
    then have "ck_bag_set_spmc (h, bag) old new = Some (Inr (False, h, bag))"
      using f by (simp add: ck_bag_set_spmc_def)
    then show ?thesis
      by (rule_tac x = False in exI, rule_tac x = h in exI) (use inv in simp)
  next
    case (Some bi)
    obtain b i where bi: "bi = (b, i)" by (cases bi)
    with p Some obtain blk where b: "b \<in> set bs" "i < block_live_count h b"
      "h b = Some blk" by auto
    from I(2) b(1) have okb: "block_ok h ?cap b" by simp
    from block_ok_live [OF okb] b(3) have len: "length (array blk) = ?cap"
      and le: "block_live_count h b \<le> ?cap" by auto
    have il: "i < length (array blk)" using b(2) le len by simp
    define blk' where "blk' = blk\<lparr>array := (array blk)[i := new]\<rparr>"
    define h' where "h' = h(b \<mapsto> blk')"
    have st: "ck_bag_set_spmc (h, bag) old new = Some (Inr (True, h', bag))"
      using f Some bi b(3) il by (simp add: ck_bag_set_spmc_def h'_def blk'_def)
    have nx: "ck_bag_block_next (blk_next blk') = ck_bag_block_next (blk_next blk)"
      and fl: "avail_next blk' = avail_next blk" "avail_prev blk' = avail_prev blk"
      by (simp_all add: blk'_def)
    have cnt: "block_live_count h' = block_live_count h"
    proof (rule ext)
      fix x
      show "block_live_count h' x = block_live_count h x"
        by (rule block_live_count_cong) (use b(3) in \<open>simp add: h'_def blk'_def\<close>)
    qed
    have "bag_inv (h', bag) bs avl"
    proof (rule bag_invI)
      show "chain h' (head bag) bs"
        using I(1) upd_chain [of h b blk blk', OF b(3) nx] by (simp add: h'_def)
      show "\<forall>x\<in>set bs. block_ok h' ?cap x"
      proof
        fix x assume x: "x \<in> set bs"
        show "block_ok h' ?cap x"
        proof (cases "x = b")
          case True
          then show ?thesis using okb len le
            by (simp add: block_ok_def cnt) (simp add: h'_def blk'_def)
        next
          case False
          then show ?thesis using I(2) x by (simp add: h'_def upd_other_ok)
        qed
      qed
      show "avail_list h' 0 (avail_head bag) avl"
        using I(3) upd_avail_list [of h b blk blk', OF b(3) fl] by (simp add: h'_def)
      show "avail_tail bag = (if avl = [] then 0 else last avl)" by (rule I(4))
      show "distinct avl" by (rule I(5))
      show "set avl = {b \<in> set bs. block_live_count h' b < ?cap}" using I(6) by (simp add: cnt)
      show "n_entries bag = of_nat (sum_list (map (block_live_count h') bs))"
        using I(7) by (simp add: cnt)
      show "n_blocks bag = of_nat (length bs)" by (rule I(8))
      show "0 < ?cap" by (rule I(9))
      show "?cap \<le> 65535" by (rule I(10))
    qed
    moreover have "\<forall>x. (h' x = None) = (h x = None)" using b(3) by (simp add: h'_def)
    ultimately show ?thesis
      by (rule_tac x = True in exI, rule_tac x = h' in exI) (use st in simp)
  qed
qed

lemma exec_mutator_ok:
  assumes inv: "bag_inv (h, bag) bs avl"
    and fr: "case x of Put_Remove (Put e answers) \<Rightarrow> answers_fresh h answers | _ \<Rightarrow> True"
  shows "\<exists>r h' bag' bs' avl'. exec_mutator (h, bag) x = Some (Inr (r, h', bag'))
           \<and> bag_inv (h', bag') bs' avl' \<and> info bag' = info bag"
proof (cases x)
  case (Put_Remove y)
  with fr have "case y of Put e answers \<Rightarrow> answers_fresh h answers | Remove e \<Rightarrow> True"
    by (cases y) simp_all
  from exec_op_ok [OF inv this] obtain r h' bag' bs' avl' where
    "exec_op (h, bag) y = Some (Inr (r, h', bag'))" "bag_inv (h', bag') bs' avl'"
    "info bag' = info bag" by blast
  then show ?thesis
    by (rule_tac x = r in exI, rule_tac x = h' in exI, rule_tac x = bag' in exI,
        rule_tac x = bs' in exI, rule_tac x = avl' in exI)
      (use Put_Remove in simp)
next
  case (Set_Entry old new)
  from set_ok [OF inv, of old new] obtain r h' where
    "ck_bag_set_spmc (h, bag) old new = Some (Inr (r, h', bag))" "bag_inv (h', bag) bs avl"
    by blast
  then show ?thesis
    by (rule_tac x = r in exI, rule_tac x = h' in exI, rule_tac x = bag in exI,
        rule_tac x = bs in exI, rule_tac x = avl in exI)
      (use Set_Entry in simp)
qed

lemma run_mutator_ok:
  assumes "bag_inv (h, bag) bs avl" and "mutator_allocator_ok (h, bag) ops"
  shows "\<exists>h' bag' bs' avl' rs. run_mutator (h, bag) ops = Some (Inr ((h', bag'), rs))
           \<and> length rs = length ops
           \<and> bag_inv (h', bag') bs' avl' \<and> info bag' = info bag"
  using assms
proof (induction ops arbitrary: h bag bs avl)
  case Nil
  show ?case
    by (rule_tac x = h in exI, rule_tac x = bag in exI, rule_tac x = bs in exI,
        rule_tac x = avl in exI, rule_tac x = "[]" in exI)
      (use Nil in simp)
next
  case (Cons x xs)
  from Cons.prems(2)
  have fr: "case x of Put_Remove (Put e answers) \<Rightarrow> answers_fresh h answers | _ \<Rightarrow> True"
    by (simp split: mutator_op.splits bag_op.splits)
  from exec_mutator_ok [OF Cons.prems(1) fr] obtain r h1 bag1 bs1 avl1 where
    ex: "exec_mutator (h, bag) x = Some (Inr (r, h1, bag1))"
    and inv1: "bag_inv (h1, bag1) bs1 avl1" and i1: "info bag1 = info bag" by blast
  from Cons.prems(2) ex have al1: "mutator_allocator_ok (h1, bag1) xs" by simp
  from Cons.IH [OF inv1 al1] obtain h' bag' bs' avl' rs where
    rn: "run_mutator (h1, bag1) xs = Some (Inr ((h', bag'), rs))"
    and len: "length rs = length xs" and inv': "bag_inv (h', bag') bs' avl'"
    and i': "info bag' = info bag1" by blast
  have "run_mutator (h, bag) (x # xs) = Some (Inr ((h', bag'), r # rs))" using ex rn by simp
  then show ?case
    by (rule_tac x = h' in exI, rule_tac x = bag' in exI, rule_tac x = bs' in exI,
        rule_tac x = avl' in exI, rule_tac x = "r # rs" in exI)
      (use len inv' i' i1 in simp)
qed

lemma run_mutator_basic: "run_mutator s (map Put_Remove ops) = run s ops"
proof (induction ops arbitrary: s)
  case Nil
  then show ?case by simp
next
  case (Cons x xs)
  then show ?case by (simp split: option.splits sum.splits prod.splits)
qed

section \<open>The bag after a sequence of puts and removes\<close>

lemma unat_of_nat32: "n < 2 ^ 32 \<Longrightarrow> unat (of_nat n :: 32 word) = n"
  by (simp add: unat_of_nat take_bit_nat_eq_self)

text \<open>
  The scenario of section 8, run on the model: every put succeeds, the fifth after growth
  to two blocks; removing \<open>0xB\<close> compacts the first block to \<open>[0xA, 0xD, 0xC]\<close> with count 3
  and puts it back on the availability list, behind the second block; removing a value
  that was never inserted fails; four entries remain.
\<close>

lemma scenario_result:
  "(case run (Map.empty, ck_bag_init scenario_geometry CK_BAG_ALLOCATE_GEOMETRIC) scenario_ops of
      Some (Inr ((h, bag), rs)) \<Rightarrow>
        rs = [True, True, True, True, True, True, False]
        \<and> map_option array (h 0x40) = Some [0xA, 0xD, 0xC, 0xD]
        \<and> ck_bag_block_count h 0x40 = Inr 3
        \<and> map_option array (h 0x80) = Some [0xE, 0, 0, 0]
        \<and> ck_bag_block_count h 0x80 = Inr 1
        \<and> head bag = 0x80 \<and> avail_head bag = 0x80 \<and> avail_tail bag = 0x40
        \<and> n_blocks bag = 2 \<and> ck_bag_count bag = 4
    | _ \<Rightarrow> False)"
  by code_simp

text \<open>
  Claim C4. After every finite sequence of puts and removes on a freshly initialized bag
  (block capacity between 1 and 65535, allocator returning fresh addresses), the sequence
  runs to its end, the chain from the head is well formed, every block of it has the
  configured capacity and a count within it, and the entries of the bag (what the
  successful puts inserted and the successful removes have not taken out) are exactly the
  slots \<open>[0, count)\<close> of the blocks: the slots from \<open>count\<close> on hold no entry. A remove
  called in such a state succeeds exactly when the entry is in the bag, and then the live
  slots of one block change from \<open>xs\<close>, with the entry at some index \<open>i\<close>, to \<open>xs\<close> with the
  last slot copied to index \<open>i\<close> and the last slot dropped; the live slots of the other
  blocks stay. So no remove leaves a gap below \<open>count\<close>.
\<close>

theorem live_entries_prefix:
  assumes "0 < unat (info_max geometry)" and "unat (info_max geometry) \<le> 65535"
    and "allocator_ok (h0, ck_bag_init geometry strat) ops"
  shows "\<exists>h bag rs bs. run (h0, ck_bag_init geometry strat) ops = Some (Inr ((h, bag), rs))
           \<and> chain h (head bag) bs
           \<and> (\<forall>b\<in>set bs. \<exists>blk. h b = Some blk
                  \<and> length (array blk) = unat (info_max geometry)
                  \<and> block_live_count h b \<le> length (array blk)
                  \<and> live_slots h b = take (block_live_count h b) (array blk))
           \<and> bag_contents h bs = contents_after {#} ops rs
           \<and> (\<forall>e. \<exists>r h' bag'. ck_bag_remove_spmc (h, bag) e = Some (Inr (r, h', bag'))
                  \<and> r = (e \<in># bag_contents h bs)
                  \<and> (if r
                      then \<exists>b i. b \<in> set bs \<and> i < length (live_slots h b)
                             \<and> live_slots h b ! i = e
                             \<and> live_slots h' b
                                 = butlast ((live_slots h b)[i := last (live_slots h b)])
                             \<and> (\<forall>x. x \<noteq> b \<longrightarrow> live_slots h' x = live_slots h x)
                      else h' = h \<and> bag' = bag))"
proof -
  from run_ok [OF bag_inv_init [OF assms(1,2)] assms(3)] obtain h bag bs avl rs where
    r: "run (h0, ck_bag_init geometry strat) ops = Some (Inr ((h, bag), rs))"
    and inv: "bag_inv (h, bag) bs avl"
    and c: "bag_contents h bs = contents_after (bag_contents h0 []) ops rs"
    and i: "info bag = info (ck_bag_init geometry strat)" by blast
  note I = bag_invD [OF inv]
  have cap: "unat (info_max (info bag)) = unat (info_max geometry)"
    using i by (simp add: ck_bag_init_def)
  have blocks: "\<forall>b\<in>set bs. \<exists>blk. h b = Some blk
                  \<and> length (array blk) = unat (info_max geometry)
                  \<and> block_live_count h b \<le> length (array blk)
                  \<and> live_slots h b = take (block_live_count h b) (array blk)"
  proof
    fix b assume "b \<in> set bs"
    with I(2) have "block_ok h (unat (info_max geometry)) b" by (simp add: cap)
    from block_ok_live [OF this] show "\<exists>blk. h b = Some blk
                  \<and> length (array blk) = unat (info_max geometry)
                  \<and> block_live_count h b \<le> length (array blk)
                  \<and> live_slots h b = take (block_live_count h b) (array blk)" by auto
  qed
  have cont: "bag_contents h bs = contents_after {#} ops rs"
    using c by (simp add: bag_contents_def)
  have rem: "\<forall>e. \<exists>r h' bag'. ck_bag_remove_spmc (h, bag) e = Some (Inr (r, h', bag'))
                  \<and> r = (e \<in># bag_contents h bs)
                  \<and> (if r
                      then \<exists>b i. b \<in> set bs \<and> i < length (live_slots h b)
                             \<and> live_slots h b ! i = e
                             \<and> live_slots h' b
                                 = butlast ((live_slots h b)[i := last (live_slots h b)])
                             \<and> (\<forall>x. x \<noteq> b \<longrightarrow> live_slots h' x = live_slots h x)
                      else h' = h \<and> bag' = bag)"
  proof
    fix e
    from remove_ok [OF inv, of e] obtain r h' bag' avl' where
      "ck_bag_remove_spmc (h, bag) e = Some (Inr (r, h', bag'))"
      "r = (e \<in># bag_contents h bs)"
      "if r
       then \<exists>b i. b \<in> set bs \<and> i < length (live_slots h b) \<and> live_slots h b ! i = e
              \<and> live_slots h' b = butlast ((live_slots h b)[i := last (live_slots h b)])
              \<and> (\<forall>x. x \<noteq> b \<longrightarrow> live_slots h' x = live_slots h x)
       else h' = h \<and> bag' = bag"
      by blast
    then show "\<exists>r h' bag'. ck_bag_remove_spmc (h, bag) e = Some (Inr (r, h', bag'))
                  \<and> r = (e \<in># bag_contents h bs)
                  \<and> (if r
                      then \<exists>b i. b \<in> set bs \<and> i < length (live_slots h b)
                             \<and> live_slots h b ! i = e
                             \<and> live_slots h' b
                                 = butlast ((live_slots h b)[i := last (live_slots h b)])
                             \<and> (\<forall>x. x \<noteq> b \<longrightarrow> live_slots h' x = live_slots h x)
                      else h' = h \<and> bag' = bag)"
      by (intro exI conjI)
  qed
  show ?thesis
    by (rule exI [of _ h], rule exI [of _ bag], rule exI [of _ rs], rule exI [of _ bs])
      (intro conjI r I(1) blocks cont rem)
qed

theorem live_entries_prefix_witness:
  "0 < unat (info_max scenario_geometry) \<and> unat (info_max scenario_geometry) \<le> 65535
   \<and> allocator_ok (Map.empty, ck_bag_init scenario_geometry CK_BAG_ALLOCATE_GEOMETRIC)
        scenario_ops
   \<and> (\<exists>h bag rs bs.
         run (Map.empty, ck_bag_init scenario_geometry CK_BAG_ALLOCATE_GEOMETRIC) scenario_ops
           = Some (Inr ((h, bag), rs))
         \<and> chain h (head bag) bs
         \<and> bag_contents h bs = contents_after {#} scenario_ops rs)"
proof -
  have g: "0 < unat (info_max scenario_geometry)" "unat (info_max scenario_geometry) \<le> 65535"
    by (simp_all add: scenario_geometry_def)
  have a: "allocator_ok (Map.empty, ck_bag_init scenario_geometry CK_BAG_ALLOCATE_GEOMETRIC)
             scenario_ops"
    by code_simp
  from live_entries_prefix [OF g a] show ?thesis using g a by blast
qed

text \<open>
  Claim C5, as the code has it. After every finite sequence of puts and removes on a
  freshly initialized bag, \<open>ck_bag_count\<close> returns the number of successful puts minus the
  number of successful removes as an \<open>unsigned int\<close>, that is modulo \<open>2^32\<close>; it is that
  number itself as long as the number is below \<open>2^32\<close>.
\<close>

theorem count_puts_minus_removes:
  assumes "0 < unat (info_max geometry)" and "unat (info_max geometry) \<le> 65535"
    and "allocator_ok (h0, ck_bag_init geometry strat) ops"
  shows "\<exists>h bag rs. run (h0, ck_bag_init geometry strat) ops = Some (Inr ((h, bag), rs))
           \<and> removes_ok ops rs \<le> puts_ok ops rs
           \<and> ck_bag_count bag = of_nat (puts_ok ops rs - removes_ok ops rs)
           \<and> (if puts_ok ops rs - removes_ok ops rs < 2 ^ 32
               then unat (ck_bag_count bag) = puts_ok ops rs - removes_ok ops rs
               else unat (ck_bag_count bag) = (puts_ok ops rs - removes_ok ops rs) mod 2 ^ 32)"
proof -
  from run_ok [OF bag_inv_init [OF assms(1,2)] assms(3)] obtain h bag bs avl rs where
    r: "run (h0, ck_bag_init geometry strat) ops = Some (Inr ((h, bag), rs))"
    and inv: "bag_inv (h, bag) bs avl"
    and s: "size (bag_contents h bs) + removes_ok ops rs
              = size (bag_contents h0 []) + puts_ok ops rs" by blast
  note I = bag_invD [OF inv]
  let ?k = "puts_ok ops rs - removes_ok ops rs"
  have sz: "size (bag_contents h bs) + removes_ok ops rs = puts_ok ops rs"
    using s by (simp add: bag_contents_def)
  then have le: "removes_ok ops rs \<le> puts_ok ops rs" and k: "size (bag_contents h bs) = ?k"
    by simp_all
  have cnt: "ck_bag_count bag = of_nat ?k"
    using I(7) size_contents [OF I(2)] k by (simp add: ck_bag_count_def)
  have "unat (ck_bag_count bag) = ?k mod 2 ^ 32"
    unfolding cnt by (simp add: unat_of_nat take_bit_eq_mod)
  then show ?thesis using r le cnt by auto
qed

theorem count_puts_minus_removes_witness:
  "0 < unat (info_max scenario_geometry) \<and> unat (info_max scenario_geometry) \<le> 65535
   \<and> allocator_ok (Map.empty, ck_bag_init scenario_geometry CK_BAG_ALLOCATE_GEOMETRIC)
        scenario_ops
   \<and> (\<exists>h bag rs.
         run (Map.empty, ck_bag_init scenario_geometry CK_BAG_ALLOCATE_GEOMETRIC) scenario_ops
           = Some (Inr ((h, bag), rs))
         \<and> ck_bag_count bag = of_nat (puts_ok scenario_ops rs - removes_ok scenario_ops rs))"
proof -
  have g: "0 < unat (info_max scenario_geometry)" "unat (info_max scenario_geometry) \<le> 65535"
    by (simp_all add: scenario_geometry_def)
  have a: "allocator_ok (Map.empty, ck_bag_init scenario_geometry CK_BAG_ALLOCATE_GEOMETRIC)
             scenario_ops"
    by code_simp
  from count_puts_minus_removes [OF g a] show ?thesis using g a by blast
qed

text \<open>
  The scenario with the two sets, run on the model: the set of the stored value \<open>0xC\<close>
  succeeds and overwrites its slot, the set of a value never inserted fails, and neither
  changes a count.
\<close>

lemma scenario_set_result:
  "(case run_mutator (Map.empty, ck_bag_init scenario_geometry CK_BAG_ALLOCATE_GEOMETRIC)
          scenario_mutator_ops of
      Some (Inr ((h, bag), rs)) \<Rightarrow>
        rs = [True, True, True, True, True, True, True, False]
        \<and> map_option array (h 0x40) = Some [0xA, 0xD, 0xF, 0xD]
        \<and> ck_bag_block_count h 0x40 = Inr 3
        \<and> ck_bag_block_count h 0x80 = Inr 1
        \<and> n_blocks bag = 2 \<and> ck_bag_count bag = 4
    | _ \<Rightarrow> False)"
  by code_simp

text \<open>
  Claim C7, as the code has it. In every state the single mutator reaches from a freshly
  initialized bag by puts, removes and sets, \<open>n_entries\<close> is the sum of the counts of the
  blocks of the chain and \<open>n_blocks\<close> is the number of blocks of the chain, both as
  \<open>unsigned int\<close>, that is modulo \<open>2^32\<close>; they are the numbers themselves as long as these
  are below \<open>2^32\<close>.
\<close>

theorem counters_match_chain:
  assumes "0 < unat (info_max geometry)" and "unat (info_max geometry) \<le> 65535"
    and "mutator_allocator_ok (h0, ck_bag_init geometry strat) ops"
  shows "\<exists>h bag rs bs.
           run_mutator (h0, ck_bag_init geometry strat) ops = Some (Inr ((h, bag), rs))
           \<and> chain h (head bag) bs
           \<and> n_entries bag = of_nat (sum_list (map (block_live_count h) bs))
           \<and> n_blocks bag = of_nat (length bs)
           \<and> unat (n_entries bag) = sum_list (map (block_live_count h) bs) mod 2 ^ 32
           \<and> unat (n_blocks bag) = length bs mod 2 ^ 32"
proof -
  from run_mutator_ok [OF bag_inv_init [OF assms(1,2)] assms(3)] obtain h bag bs avl rs where
    r: "run_mutator (h0, ck_bag_init geometry strat) ops = Some (Inr ((h, bag), rs))"
    and inv: "bag_inv (h, bag) bs avl" by blast
  note I = bag_invD [OF inv]
  have "unat (n_entries bag) = sum_list (map (block_live_count h) bs) mod 2 ^ 32"
    unfolding I(7) by (simp add: unat_of_nat take_bit_eq_mod)
  moreover have "unat (n_blocks bag) = length bs mod 2 ^ 32"
    unfolding I(8) by (simp add: unat_of_nat take_bit_eq_mod)
  ultimately show ?thesis using r I(1,7,8) by blast
qed

theorem counters_match_chain_witness:
  "0 < unat (info_max scenario_geometry) \<and> unat (info_max scenario_geometry) \<le> 65535
   \<and> mutator_allocator_ok (Map.empty, ck_bag_init scenario_geometry CK_BAG_ALLOCATE_GEOMETRIC)
        scenario_mutator_ops
   \<and> (\<exists>h bag rs bs.
         run_mutator (Map.empty, ck_bag_init scenario_geometry CK_BAG_ALLOCATE_GEOMETRIC)
             scenario_mutator_ops
           = Some (Inr ((h, bag), rs))
         \<and> chain h (head bag) bs
         \<and> n_entries bag = of_nat (sum_list (map (block_live_count h) bs))
         \<and> n_blocks bag = of_nat (length bs))"
proof -
  have g: "0 < unat (info_max scenario_geometry)" "unat (info_max scenario_geometry) \<le> 65535"
    by (simp_all add: scenario_geometry_def)
  have a: "mutator_allocator_ok
             (Map.empty, ck_bag_init scenario_geometry CK_BAG_ALLOCATE_GEOMETRIC)
             scenario_mutator_ops"
    by code_simp
  from counters_match_chain [OF g a] show ?thesis using g a by blast
qed

section \<open>A run of \<open>2^32\<close> puts\<close>

lemma allocator_ok_static:
  assumes "bag_inv (h, bag) bs avl"
    and "distinct (filter (\<lambda>a. a \<noteq> 0) (concat (map op_answers ops)))"
    and "\<forall>a\<in>set (concat (map op_answers ops)).
           a \<noteq> 0 \<longrightarrow> h a = None \<and> a AND CK_BAG_BLOCK_ENTRIES_MASK = 0"
  shows "allocator_ok (h, bag) ops"
  using assms
proof (induction ops arbitrary: h bag bs avl)
  case Nil
  then show ?case by simp
next
  case (Cons x xs)
  let ?rest = "concat (map op_answers xs)"
  from Cons.prems(2) have dx: "distinct (filter (\<lambda>a. a \<noteq> 0) (op_answers x))"
    and dr: "distinct (filter (\<lambda>a. a \<noteq> 0) ?rest)"
    and disj: "\<And>a. a \<noteq> 0 \<Longrightarrow> a \<in> set (op_answers x) \<Longrightarrow> a \<notin> set ?rest"
    by auto
  from Cons.prems(3) have fx: "\<forall>a\<in>set (op_answers x).
           a \<noteq> 0 \<longrightarrow> h a = None \<and> a AND CK_BAG_BLOCK_ENTRIES_MASK = 0"
    and fr: "\<forall>a\<in>set ?rest. a \<noteq> 0 \<longrightarrow> h a = None \<and> a AND CK_BAG_BLOCK_ENTRIES_MASK = 0"
    by auto
  have fresh: "case x of Put e answers \<Rightarrow> answers_fresh h answers | Remove e \<Rightarrow> True"
    using dx fx by (cases x) (simp_all add: answers_fresh_def)
  have step: "\<exists>r h' bag' bs' avl'. exec_op (h, bag) x = Some (Inr (r, h', bag'))
      \<and> bag_inv (h', bag') bs' avl'
      \<and> (\<forall>a. h' a \<noteq> None \<longrightarrow> h a \<noteq> None \<or> a \<in> set (op_answers x))"
  proof (cases x)
    case (Put e answers)
    with fresh have "answers_fresh h answers" by simp
    from put_ok [OF Cons.prems(1) this, of e] obtain r h' bag' bs' avl' where
      "ck_bag_put_spmc (h, bag) e answers = Inr (r, h', bag')" "bag_inv (h', bag') bs' avl'"
      "\<forall>x. h' x \<noteq> None \<longrightarrow> h x \<noteq> None \<or> x \<in> set answers" by blast
    then show ?thesis
      by (rule_tac x = r in exI, rule_tac x = h' in exI, rule_tac x = bag' in exI,
          rule_tac x = bs' in exI, rule_tac x = avl' in exI)
        (use Put in simp)
  next
    case (Remove e)
    from remove_ok [OF Cons.prems(1), of e] obtain r h' bag' avl' where
      "ck_bag_remove_spmc (h, bag) e = Some (Inr (r, h', bag'))" "bag_inv (h', bag') bs avl'"
      "\<forall>x. (h' x = None) = (h x = None)" by blast
    then show ?thesis
      by (rule_tac x = r in exI, rule_tac x = h' in exI, rule_tac x = bag' in exI,
          rule_tac x = bs in exI, rule_tac x = avl' in exI)
        (use Remove in simp)
  qed
  then obtain r h' bag' bs' avl' where
    ex: "exec_op (h, bag) x = Some (Inr (r, h', bag'))"
    and inv': "bag_inv (h', bag') bs' avl'"
    and dom: "\<forall>a. h' a \<noteq> None \<longrightarrow> h a \<noteq> None \<or> a \<in> set (op_answers x)" by blast
  have fr': "\<forall>a\<in>set ?rest. a \<noteq> 0 \<longrightarrow> h' a = None \<and> a AND CK_BAG_BLOCK_ENTRIES_MASK = 0"
  proof (intro ballI impI)
    fix a assume a: "a \<in> set ?rest" "a \<noteq> 0"
    with fr have ha: "h a = None" and top: "a AND CK_BAG_BLOCK_ENTRIES_MASK = 0" by auto
    have "a \<notin> set (op_answers x)" using disj a by blast
    with dom ha have "h' a = None" by blast
    with top show "h' a = None \<and> a AND CK_BAG_BLOCK_ENTRIES_MASK = 0" by simp
  qed
  have "allocator_ok (h', bag') xs" by (rule Cons.IH [OF inv' dr fr'])
  then show ?case using fresh ex by (cases x) simp_all
qed

lemma run_linear_puts:
  assumes "bag_inv (h, bag) bs avl" and "alloc_strat bag = CK_BAG_ALLOCATE_LINEAR"
    and "allocator_ok (h, bag) ops"
    and "\<forall>x\<in>set ops. \<exists>e a. x = Put e [a] \<and> a \<noteq> 0"
  shows "\<exists>s'. run (h, bag) ops = Some (Inr (s', replicate (length ops) True))"
  using assms
proof (induction ops arbitrary: h bag bs avl)
  case Nil
  then show ?case by simp
next
  case (Cons x xs)
  from Cons.prems(4) obtain e a where x: "x = Put e [a]" and a: "a \<noteq> 0" by auto
  from Cons.prems(3) x have fr: "answers_fresh h [a]" by simp
  have g: "growth_blocks bag = 1" using Cons.prems(2) by (simp add: growth_blocks_def)
  from put_ok [OF Cons.prems(1) fr, of e] obtain r h' bag' bs' avl' where
    p: "ck_bag_put_spmc (h, bag) e [a] = Inr (r, h', bag')"
    and inv': "bag_inv (h', bag') bs' avl'"
    and st: "alloc_strat bag' = alloc_strat bag"
    and r: "r = (avail_head bag \<noteq> 0 \<or>
                   (growth_blocks bag \<le> length [a]
                    \<and> 0 \<notin> set (take (growth_blocks bag) [a])))" by blast
  have rt: "r = True" using r g a by simp
  have ex: "exec_op (h, bag) x = Some (Inr (True, h', bag'))" using p x rt by simp
  with Cons.prems(3) have al': "allocator_ok (h', bag') xs" by simp
  have "\<forall>x\<in>set xs. \<exists>e a. x = Put e [a] \<and> a \<noteq> 0" using Cons.prems(4) by simp
  from Cons.IH [OF inv' _ al' this] st Cons.prems(2) obtain s' where
    "run (h', bag') xs = Some (Inr (s', replicate (length xs) True))" by auto
  then show ?case using ex by (cases s') simp
qed

lemma puts_ok_all:
  "\<forall>x\<in>set ops. \<exists>e a. x = Put e [a] \<and> a \<noteq> 0 \<Longrightarrow>
     puts_ok ops (replicate (length ops) True) = length ops
     \<and> removes_ok ops (replicate (length ops) True) = 0"
  by (induction ops) auto

lemma unat_push6:
  assumes "k < 2 ^ 42"
  shows "unat (push_bit 6 (of_nat k) :: uintptr) = 64 * k"
proof -
  have "64 * k < 64 * 2 ^ 42" using assms by simp
  also have "(64::nat) * 2 ^ 42 \<le> 2 ^ 64" by simp
  finally have lt: "64 * k < 2 ^ LENGTH(64)" by simp
  have "push_bit 6 (of_nat k :: uintptr) = of_nat (64 * k)"
    by (simp add: push_bit_eq_mult mult.commute)
  then show ?thesis by (simp only: unat_of_nat mod_less [OF lt])
qed

lemma small_top_clear:
  fixes w :: uintptr
  assumes "unat w < 2 ^ 48"
  shows "w AND CK_BAG_BLOCK_ENTRIES_MASK = 0"
proof -
  have "unat (drop_bit 48 w) = unat (w div 2 ^ 48)" by (simp only: drop_bit_eq_div)
  also have "\<dots> = unat w div unat (2 ^ 48 :: uintptr)" by (rule unat_div)
  also have "unat (2 ^ 48 :: uintptr) = 2 ^ 48" by simp
  also have "unat w div 2 ^ 48 = 0" using assms by (rule div_less)
  finally have z: "drop_bit 48 w = 0" by (simp only: unsigned_eq_0_iff)
  show ?thesis unfolding and_mask_zero_iff
  proof (intro allI impI)
    fix n assume b: "bit w n"
    show "n < 48"
    proof (rule ccontr)
      assume "\<not> n < 48"
      then have "bit (drop_bit 48 w) (n - 48)" using b by (simp add: bit_drop_bit_eq)
      with z show False by simp
    qed
  qed
qed

lemma put_seq_answers:
  "concat (map op_answers (put_seq n)) = map (\<lambda>k. push_bit 6 (of_nat (Suc k))) [0..<n]"
  by (induction n) (simp_all add: put_seq_def)

lemma put_seq_fresh:
  assumes "n \<le> 2 ^ 32"
  shows "distinct (filter (\<lambda>a. a \<noteq> 0) (concat (map op_answers (put_seq n))))"
    and "\<forall>a\<in>set (concat (map op_answers (put_seq n))).
           a \<noteq> 0 \<longrightarrow> Map.empty a = (None :: ck_bag_block option)
                     \<and> a AND CK_BAG_BLOCK_ENTRIES_MASK = 0"
proof -
  let ?f = "\<lambda>k. push_bit 6 (of_nat (Suc k)) :: uintptr"
  have small: "\<And>k. k < n \<Longrightarrow> Suc k < 2 ^ 42"
  proof -
    fix k assume "k < n"
    with assms have "Suc k \<le> 2 ^ 32" by simp
    also have "(2::nat) ^ 32 < 2 ^ 42" by simp
    finally show "Suc k < 2 ^ 42" .
  qed
  have un: "\<And>k. k < n \<Longrightarrow> unat (?f k) = 64 * Suc k"
    using unat_push6 [OF small] by simp
  have "inj_on ?f (set [0..<n])"
  proof (rule inj_onI)
    fix x y assume "x \<in> set [0..<n]" "y \<in> set [0..<n]" "?f x = ?f y"
    then have "unat (?f x) = unat (?f y)" "x < n" "y < n" by simp_all
    then show "x = y" using un by simp
  qed
  then have "distinct (map ?f [0..<n])" by (simp add: distinct_map)
  then show "distinct (filter (\<lambda>a. a \<noteq> 0) (concat (map op_answers (put_seq n))))"
    by (simp add: put_seq_answers distinct_filter)
  show "\<forall>a\<in>set (concat (map op_answers (put_seq n))).
           a \<noteq> 0 \<longrightarrow> Map.empty a = (None :: ck_bag_block option)
                     \<and> a AND CK_BAG_BLOCK_ENTRIES_MASK = 0"
  proof (intro ballI impI)
    fix a assume "a \<in> set (concat (map op_answers (put_seq n)))"
    then obtain k where k: "k < n" "a = ?f k" by (auto simp: put_seq_answers)
    have "64 * Suc k < 2 ^ 48" using small [OF k(1)] by simp
    then have "unat a < 2 ^ 48" using un [OF k(1)] k(2) by simp
    then show "Map.empty a = (None :: ck_bag_block option) \<and> a AND CK_BAG_BLOCK_ENTRIES_MASK = 0"
      by (simp add: small_top_clear)
  qed
qed

lemma put_seq_all_puts:
  assumes "n \<le> 2 ^ 32"
  shows "\<forall>x\<in>set (put_seq n). \<exists>e a. x = Put e [a] \<and> a \<noteq> 0"
proof
  fix x assume "x \<in> set (put_seq n)"
  then obtain k where k: "k < n" "x = Put 1 [push_bit 6 (of_nat (Suc k))]"
    by (auto simp: put_seq_def)
  from k(1) assms have "Suc k \<le> 2 ^ 32" by simp
  also have "(2::nat) ^ 32 < 2 ^ 42" by simp
  finally have "unat (push_bit 6 (of_nat (Suc k)) :: uintptr) = 64 * Suc k" by (rule unat_push6)
  then have "(push_bit 6 (of_nat (Suc k)) :: uintptr) \<noteq> 0" by (metis mult_is_0 nat.simps(3) numeral_neq_zero unat_0 zero_neq_numeral)
  with k(2) show "\<exists>e a. x = Put e [a] \<and> a \<noteq> 0" by blast
qed

lemma length_put_seq: "length (put_seq n) = n"
  by (simp add: put_seq_def)

lemma long_run:
  assumes "n \<le> 2 ^ 32"
  shows "\<exists>h bag bs. run (Map.empty, ck_bag_init large_geometry CK_BAG_ALLOCATE_LINEAR) (put_seq n)
             = Some (Inr ((h, bag), replicate n True))
           \<and> chain h (head bag) bs
           \<and> sum_list (map (block_live_count h) bs) = n
           \<and> n_entries bag = of_nat n
           \<and> puts_ok (put_seq n) (replicate n True) = n
           \<and> removes_ok (put_seq n) (replicate n True) = 0"
proof -
  let ?s0 = "(Map.empty :: heap, ck_bag_init large_geometry CK_BAG_ALLOCATE_LINEAR)"
  have inv0: "bag_inv ?s0 [] []"
    by (rule bag_inv_init) (simp_all add: large_geometry_def)
  have al: "allocator_ok ?s0 (put_seq n)"
    by (rule allocator_ok_static [OF inv0 put_seq_fresh [OF assms]])
  have lin: "alloc_strat (ck_bag_init large_geometry CK_BAG_ALLOCATE_LINEAR) = CK_BAG_ALLOCATE_LINEAR"
    by (simp add: ck_bag_init_def)
  from run_linear_puts [OF inv0 lin al put_seq_all_puts [OF assms]] obtain s' where
    r1: "run ?s0 (put_seq n) = Some (Inr (s', replicate n True))"
    by (auto simp: length_put_seq)
  from run_ok [OF inv0 al] obtain h bag bs avl rs where
    r2: "run ?s0 (put_seq n) = Some (Inr ((h, bag), rs))"
    and inv: "bag_inv (h, bag) bs avl"
    and sz: "size (bag_contents h bs) + removes_ok (put_seq n) rs
              = size (bag_contents Map.empty []) + puts_ok (put_seq n) rs" by blast
  from r1 r2 have rs: "rs = replicate n True" and s': "s' = (h, bag)" by simp_all
  note I = bag_invD [OF inv]
  have pr: "puts_ok (put_seq n) (replicate n True) = n"
    "removes_ok (put_seq n) (replicate n True) = 0"
    using puts_ok_all [OF put_seq_all_puts [OF assms]] by (simp_all add: length_put_seq)
  have "size (bag_contents h bs) = n" using sz pr rs by (simp add: bag_contents_def)
  then have sum: "sum_list (map (block_live_count h) bs) = n"
    using size_contents [OF I(2)] by simp
  then have "n_entries bag = of_nat n" using I(7) by simp
  then show ?thesis using r2 rs I(1) sum pr by blast
qed

text \<open>
  Claim C5 as stated fails once \<open>unsigned int\<close> wraps: after \<open>2^32 = 4294967296\<close> puts, all
  successful, and no remove, \<open>ck_bag_count\<close> returns 0.
\<close>

theorem count_wraps_at_2_32:
  "run_counts (Map.empty, ck_bag_init large_geometry CK_BAG_ALLOCATE_LINEAR)
     (put_seq 4294967296) = Some (0, 4294967296, 0)"
proof -
  have "(4294967296 :: nat) \<le> 2 ^ 32" by simp
  from long_run [OF this] obtain h bag where
    "run (Map.empty, ck_bag_init large_geometry CK_BAG_ALLOCATE_LINEAR) (put_seq 4294967296)
       = Some (Inr ((h, bag), replicate 4294967296 True))"
    "n_entries bag = of_nat 4294967296"
    "puts_ok (put_seq 4294967296) (replicate 4294967296 True) = 4294967296"
    "removes_ok (put_seq 4294967296) (replicate 4294967296 True) = 0" by blast
  moreover have "(of_nat 4294967296 :: 32 word) = 0" by simp
  ultimately show ?thesis by (simp only: run_counts_def ck_bag_count_def option.case sum.case prod.case)
qed

text \<open>
  Claim C7 as stated fails in the same state: the counts of the blocks of the chain sum to
  \<open>2^32 = 4294967296\<close>, and \<open>n_entries\<close> is 0.
\<close>

theorem n_entries_wraps_at_2_32:
  "\<exists>h bag rs bs.
     run_mutator (Map.empty, ck_bag_init large_geometry CK_BAG_ALLOCATE_LINEAR)
         (map Put_Remove (put_seq 4294967296))
       = Some (Inr ((h, bag), rs))
     \<and> chain h (head bag) bs
     \<and> sum_list (map (block_live_count h) bs) = 4294967296
     \<and> n_entries bag = 0"
proof -
  have "(4294967296 :: nat) \<le> 2 ^ 32" by simp
  from long_run [OF this] obtain h bag bs where
    "run (Map.empty, ck_bag_init large_geometry CK_BAG_ALLOCATE_LINEAR) (put_seq 4294967296)
       = Some (Inr ((h, bag), replicate 4294967296 True))"
    "chain h (head bag) bs"
    "sum_list (map (block_live_count h) bs) = 4294967296"
    "n_entries bag = of_nat 4294967296" by blast
  moreover have "(of_nat 4294967296 :: 32 word) = 0" by simp
  ultimately show ?thesis unfolding run_mutator_basic by (metis (no_types))
qed

end
